theory Spec2Isabelle
  imports Main "HOL-Library.Word" "HOL-Library.Sublist" "HOL-Library.Monad_Syntax"
begin

section \<open>Structured errors: data model\<close>

text \<open>
  The Go package attaches typed attributes, tags, causes and a stack to an error value
  and renders it as text (\<^verbatim>\<open>string.go\<close>) and as \<^verbatim>\<open>log/slog\<close> groups
  (\<^verbatim>\<open>slog.go\<close>); \<^verbatim>\<open>join.go\<close> builds aggregation nodes.

  Go strings and byte slices are \<^typ>\<open>string\<close> (lists of bytes). A Go \<^verbatim>\<open>int\<close>,
  \<^verbatim>\<open>int64\<close> or \<^verbatim>\<open>uint64\<close> payload is a 64-bit word; loop counters and
  indentation depths, which only count up from zero, are \<^typ>\<open>nat\<close>.
\<close>

subsection \<open>Attributes\<close>

text \<open>
  The tag of an attribute. The named constants are the arms of the encoders' switches;
  \<open>OtherType n\<close> is any tag value outside them, which reaches the \<^verbatim>\<open>default\<close> arm.
\<close>

datatype Type =
    AnyType | ObjectType
  | BoolType | BoolsType
  | TimeType | TimesType
  | DurationType | DurationsType
  | IntType | IntsType
  | Int64Type | Int64sType
  | Uint64Type | Uint64sType
  | Float64Type | Float64sType
  | StringType | StringsType
  | OtherType nat

text \<open>
  \<^verbatim>\<open>time.Time\<close> is an opaque instant, \<^verbatim>\<open>time.Duration\<close> an int64 of nanoseconds and
  \<^verbatim>\<open>float64\<close> its IEEE-754 bits; how the standard library prints them is a parameter of
  the encoders (see \<open>env\<close> below).
\<close>

type_synonym time = int
type_synonym duration = "64 word"
type_synonym float64 = "64 word"

text \<open>
  \<^verbatim>\<open>Attr.Value\<close> has the Go type \<^verbatim>\<open>any\<close>: a value together with its dynamic type. The
  constructors are the dynamic types that the encoders assert; \<open>NilValue\<close> is the nil
  interface and \<open>OtherValue n\<close> a value of any other dynamic type (one the encoders and
  \<^verbatim>\<open>log/slog\<close> treat opaquely). \<^verbatim>\<open>Attr\<close> is a struct, but it contains itself through
  \<^verbatim>\<open>[]Attr\<close> payloads, so it is a datatype with the fields as selectors.
\<close>

datatype any =
    NilValue
  | AttrsValue "Attr list"
  | BoolValue bool
  | BoolsValue "bool list"
  | TimeValue time
  | TimesValue "time list"
  | DurationValue duration
  | DurationsValue "duration list"
  | IntValue "64 word"
  | IntsValue "64 word list"
  | Int64Value "64 word"
  | Int64sValue "64 word list"
  | Uint64Value "64 word"
  | Uint64sValue "64 word list"
  | Float64Value float64
  | Float64sValue "float64 list"
  | StringValue string
  | StringsValue "string list"
  | OtherValue nat
and Attr = Attr (Key: string) (Value: any) (Type: Type)

subsection \<open>Error values\<close>

text \<open>
  A value of the interface type \<^verbatim>\<open>error\<close>:
  \<^item> \<open>NilError\<close>, the nil interface;
  \<^item> \<open>StdError m\<close>, a value with no \<^verbatim>\<open>Unwrap\<close> method whose \<^verbatim>\<open>Error()\<close> is \<open>m\<close>
    (\<^verbatim>\<open>errors.New\<close>, \<^verbatim>\<open>fmt.Errorf\<close> without \<^verbatim>\<open>%w\<close>);
  \<^item> \<open>WrapError m c\<close>, a value with \<^verbatim>\<open>Unwrap() error\<close> returning \<open>c\<close>
    (\<^verbatim>\<open>fmt.Errorf\<close> with one \<^verbatim>\<open>%w\<close>);
  \<^item> \<open>WrapErrors m cs\<close>, a value with \<^verbatim>\<open>Unwrap() []error\<close> returning \<open>cs\<close>
    (\<^verbatim>\<open>fmt.Errorf\<close> with several \<^verbatim>\<open>%w\<close>, the standard \<^verbatim>\<open>errors.Join\<close>);
  \<^item> \<open>Pointer p\<close>, a \<^verbatim>\<open>*StructuredError\<close> stored in the interface, where \<open>p = None\<close> is
    the nil pointer: such an interface value is itself not nil.

  These are finite trees: a value is identified with its contents, which is all the
  encoders read. Graphs with sharing and cycles are kept in an explicit store, in the section on
  stored graphs.
\<close>

datatype error =
    NilError
  | StdError string
  | WrapError string error
  | WrapErrors string "error list"
  | Pointer "StructuredError option"
and StructuredError =
  StructuredError
    (Message: string)
    (Attrs: "Attr list")
    (Errors: "error list")
    (Tags: "string list")
    (Stack: string)
    (joined: bool)

subsection \<open>Constants, configuration and library functions\<close>

text \<open>
  Modelled from the spec: the package's string constants are declared in a file that is
  not part of the sources at hand. The sentinel literal and the section names are the
  ones the tests expect (\<^verbatim>\<open>"message":"!NILVALUE"\<close>, \<^verbatim>\<open>(message=simple error)\<close>) and
  the spec lists (\<^verbatim>\<open>message\<close>, \<^verbatim>\<open>tags\<close>, \<^verbatim>\<open>attrs\<close>, \<^verbatim>\<open>errors\<close>, \<^verbatim>\<open>stack\<close>); the
  punctuation constants are what their names say.
\<close>

definition nilValue :: string where "nilValue = ''!NILVALUE''"
definition messageKey :: string where "messageKey = ''message''"
definition tagsKey :: string where "tagsKey = ''tags''"
definition attrsKey :: string where "attrsKey = ''attrs''"
definition errorsKey :: string where "errorsKey = ''errors''"
definition stackKey :: string where "stackKey = ''stack''"
definition parenthesisOpen :: string where "parenthesisOpen = ''(''"
definition parenthesisClose :: string where "parenthesisClose = '')''"
definition bracketOpen :: string where "bracketOpen = ''[''"
definition bracketClose :: string where "bracketClose = '']''"
definition curlyOpen :: string where "curlyOpen = ''{''"
definition curlyClose :: string where "curlyClose = ''}''"
definition equals :: string where "equals = ''=''"
definition comma :: string where "comma = '',''"
definition newLine :: string where "newLine = [CHR 0x0A]"
definition tab :: string where "tab = [CHR 0x09]"

lemmas text_constants =
  nilValue_def messageKey_def tagsKey_def attrsKey_def errorsKey_def stackKey_def
  parenthesisOpen_def parenthesisClose_def bracketOpen_def bracketClose_def
  curlyOpen_def curlyClose_def equals_def comma_def newLine_def tab_def

text \<open>
  Modelled from the spec: \<^verbatim>\<open>cmpOr(a, b)\<close> (declared outside the sources at hand) yields
  its first argument unless that is the empty string, as the spec's "sentinel if empty"
  and the standard \<^verbatim>\<open>cmp.Or\<close> say.
\<close>

definition cmpOr :: "string \<Rightarrow> string \<Rightarrow> string" where
  "cmpOr a b = (if a = [] then b else a)"

text \<open>
  What the encoders read from their surroundings: the process-wide maximum depth (a Go
  \<^verbatim>\<open>int\<close>, default 100) and the standard-library functions whose exact output does
  not matter here: \<^verbatim>\<open>strings.TrimSpace\<close>, \<^verbatim>\<open>fmt.Sprintf(verboseFormat, v)\<close>,
  \<^verbatim>\<open>time.Time.String\<close>, \<^verbatim>\<open>time.Duration.String\<close> and
  \<^verbatim>\<open>strconv.FormatFloat(v, 'f', -1, 64)\<close>. They are total and never panic.
\<close>

record env =
  maxDepthMarshal :: int
  TrimSpace :: "string \<Rightarrow> string"
  Sprintf :: "any \<Rightarrow> string"
  Time_String :: "time \<Rightarrow> string"
  Duration_String :: "duration \<Rightarrow> string"
  FormatFloat :: "float64 \<Rightarrow> string"

text \<open>Decimal printing: \<^verbatim>\<open>strconv.FormatBool\<close>, \<^verbatim>\<open>Itoa\<close>, \<^verbatim>\<open>FormatInt\<close>, \<^verbatim>\<open>FormatUint\<close> in base ten.\<close>

definition FormatBool :: "bool \<Rightarrow> string" where
  "FormatBool b = (if b then ''true'' else ''false'')"

definition digit :: "nat \<Rightarrow> char" where
  "digit n = ''0123456789'' ! n"

fun decimal :: "nat \<Rightarrow> string" where
  "decimal n = (if n < 10 then [digit n] else decimal (n div 10) @ [digit (n mod 10)])"

declare decimal.simps [simp del]

definition Itoa :: "int \<Rightarrow> string" where
  "Itoa i = (if i < 0 then ''-'' @ decimal (nat (- i)) else decimal (nat i))"

definition FormatInt :: "64 word \<Rightarrow> string" where
  "FormatInt w = Itoa (sint w)"

definition FormatUint :: "64 word \<Rightarrow> string" where
  "FormatUint w = decimal (unat w)"

text \<open>
  A failed type assertion \<^verbatim>\<open>v.(T)\<close> panics: the assertion functions return \<open>None\<close>
  then, and every function that can panic returns an option.
\<close>

fun as_Attrs :: "any \<Rightarrow> Attr list option" where
  "as_Attrs (AttrsValue v) = Some v" | "as_Attrs _ = None"
fun as_bool :: "any \<Rightarrow> bool option" where
  "as_bool (BoolValue v) = Some v" | "as_bool _ = None"
fun as_bools :: "any \<Rightarrow> bool list option" where
  "as_bools (BoolsValue v) = Some v" | "as_bools _ = None"
fun as_Time :: "any \<Rightarrow> time option" where
  "as_Time (TimeValue v) = Some v" | "as_Time _ = None"
fun as_Times :: "any \<Rightarrow> time list option" where
  "as_Times (TimesValue v) = Some v" | "as_Times _ = None"
fun as_Duration :: "any \<Rightarrow> duration option" where
  "as_Duration (DurationValue v) = Some v" | "as_Duration _ = None"
fun as_Durations :: "any \<Rightarrow> duration list option" where
  "as_Durations (DurationsValue v) = Some v" | "as_Durations _ = None"
fun as_int :: "any \<Rightarrow> 64 word option" where
  "as_int (IntValue v) = Some v" | "as_int _ = None"
fun as_ints :: "any \<Rightarrow> 64 word list option" where
  "as_ints (IntsValue v) = Some v" | "as_ints _ = None"
fun as_int64 :: "any \<Rightarrow> 64 word option" where
  "as_int64 (Int64Value v) = Some v" | "as_int64 _ = None"
fun as_int64s :: "any \<Rightarrow> 64 word list option" where
  "as_int64s (Int64sValue v) = Some v" | "as_int64s _ = None"
fun as_uint64 :: "any \<Rightarrow> 64 word option" where
  "as_uint64 (Uint64Value v) = Some v" | "as_uint64 _ = None"
fun as_uint64s :: "any \<Rightarrow> 64 word list option" where
  "as_uint64s (Uint64sValue v) = Some v" | "as_uint64s _ = None"
fun as_float64 :: "any \<Rightarrow> float64 option" where
  "as_float64 (Float64Value v) = Some v" | "as_float64 _ = None"
fun as_float64s :: "any \<Rightarrow> float64 list option" where
  "as_float64s (Float64sValue v) = Some v" | "as_float64s _ = None"
fun as_string :: "any \<Rightarrow> string option" where
  "as_string (StringValue v) = Some v" | "as_string _ = None"
fun as_strings :: "any \<Rightarrow> string list option" where
  "as_strings (StringsValue v) = Some v" | "as_strings _ = None"

section \<open>Join and JoinIf\<close>

text \<open>
  \<^verbatim>\<open>Join\<close> counts the non-nil arguments in a first loop, returns nil when there are
  none, and otherwise appends each non-nil argument to the \<^verbatim>\<open>Errors\<close> of a fresh
  node \<^verbatim>\<open>&StructuredError{joined: true}\<close> in a second loop.
\<close>

definition count_loop :: "error list \<Rightarrow> nat" where
  "count_loop errs = fold (\<lambda>err count. if err \<noteq> NilError then count + 1 else count) errs 0"

definition append_Errors :: "error \<Rightarrow> StructuredError \<Rightarrow> StructuredError" where
  "append_Errors err e =
     StructuredError (Message e) (Attrs e) (Errors e @ [err]) (Tags e) (Stack e) (joined e)"

definition Join :: "error list \<Rightarrow> error" where
  "Join errs =
     (let count = count_loop errs in
      if count = 0 then NilError
      else
        let err0 = StructuredError [] [] [] [] [] True;
            err1 = fold (\<lambda>err acc. if err \<noteq> NilError then append_Errors err acc else acc) errs err0
        in Pointer (Some err1))"

definition JoinIf :: "error list \<Rightarrow> error" where
  "JoinIf errs =
     (if length errs = 0 then NilError
      else if errs ! 0 \<noteq> NilError then Join errs
      else NilError)"

section \<open>The text encoder\<close>

text \<open>
  \<^verbatim>\<open>string.go\<close> writes into a \<^verbatim>\<open>strings.Builder\<close>. The builder is passed along as the
  text written so far; a function that can panic returns \<open>None\<close>.
\<close>

definition valueToString :: "string \<Rightarrow> string \<Rightarrow> string \<Rightarrow> string" where
  "valueToString sb key val = sb @ parenthesisOpen @ key @ equals @ val @ parenthesisClose"

definition tabToString :: "string \<Rightarrow> nat \<Rightarrow> string" where
  "tabToString sb depth = fold (\<lambda>i sb. sb @ tab) [0..<depth] sb"

text \<open>
  Every arm of the type switch in \<^verbatim>\<open>valuesToString\<close> is the same loop around one
  statement that writes an element; \<open>rangeValues\<close> is that loop and \<open>write\<close> the
  statement of the arm. Go instantiates the generic function per element type, so the
  arm is known at each call and is passed as an argument.
\<close>

fun rangeValues ::
  "(string \<Rightarrow> nat \<Rightarrow> 'a \<Rightarrow> string option) \<Rightarrow> string \<Rightarrow> nat \<Rightarrow> nat \<Rightarrow> 'a list \<Rightarrow> string option" where
  "rangeValues write sb depth index [] = Some sb"
| "rangeValues write sb depth index (v # values) =
     do {
       let sb = (if index > 0 then sb @ comma @ newLine else sb);
       let sb = tabToString sb depth;
       sb \<leftarrow> write sb depth v;
       rangeValues write sb depth (index + 1) values
     }"

text \<open>On an empty slice the function returns after the closer, before the closing parenthesis.\<close>

definition valuesToString ::
  "(string \<Rightarrow> nat \<Rightarrow> 'a \<Rightarrow> string option) \<Rightarrow> string \<Rightarrow> nat \<Rightarrow> string \<Rightarrow> 'a list \<Rightarrow> string \<Rightarrow> string
     \<Rightarrow> string option" where
  "valuesToString write sb depth key slc opener closer =
     (let sb = sb @ parenthesisOpen @ key @ equals @ opener in
      if length slc = 0 then Some (sb @ closer)
      else do {
        let sb = sb @ newLine;
        let depth = depth + 1;
        sb \<leftarrow> rangeValues write sb depth 0 slc;
        let sb = sb @ newLine;
        let sb = tabToString sb (depth - 1);
        Some (sb @ closer @ parenthesisClose)
      })"

definition sliceToString ::
  "(string \<Rightarrow> nat \<Rightarrow> 'a \<Rightarrow> string option) \<Rightarrow> string \<Rightarrow> nat \<Rightarrow> string \<Rightarrow> 'a list \<Rightarrow> string option" where
  "sliceToString write sb depth key slc = valuesToString write sb depth key slc bracketOpen bracketClose"

definition objectToString ::
  "(string \<Rightarrow> nat \<Rightarrow> 'a \<Rightarrow> string option) \<Rightarrow> string \<Rightarrow> nat \<Rightarrow> string \<Rightarrow> 'a list \<Rightarrow> string option" where
  "objectToString write sb depth key object = valuesToString write sb depth key object curlyOpen curlyClose"

text \<open>The arms that print a scalar: \<^verbatim>\<open>stringsBuilder.WriteString(f(value))\<close>.\<close>

definition writeScalar :: "('a \<Rightarrow> string) \<Rightarrow> string \<Rightarrow> nat \<Rightarrow> 'a \<Rightarrow> string option" where
  "writeScalar f sb depth v = Some (sb @ f v)"

lemma rangeValues_cong [fundef_cong]:
  "\<lbrakk>values = values'; sb = sb'; depth = depth'; index = index';
    \<And>sb v. v \<in> set values' \<Longrightarrow> write sb depth' v = write' sb depth' v\<rbrakk>
   \<Longrightarrow> rangeValues write sb depth index values = rangeValues write' sb' depth' index' values'"
proof (induction values' arbitrary: sb sb' index index' "values")
  case Nil
  then show ?case by simp
next
  case (Cons a values')
  then show ?case by (auto simp: Let_def intro!: Option.bind_cong)
qed

lemma valuesToString_cong [fundef_cong]:
  "\<lbrakk>slc = slc'; sb = sb'; depth = depth'; key = key'; opener = opener'; closer = closer';
    \<And>sb v. v \<in> set slc' \<Longrightarrow> write sb (depth' + 1) v = write' sb (depth' + 1) v\<rbrakk>
   \<Longrightarrow> valuesToString write sb depth key slc opener closer
       = valuesToString write' sb' depth' key' slc' opener' closer'"
  unfolding valuesToString_def Let_def
  by (auto intro!: Option.bind_cong rangeValues_cong)

lemma sliceToString_cong [fundef_cong]:
  "\<lbrakk>slc = slc'; sb = sb'; depth = depth'; key = key';
    \<And>sb v. v \<in> set slc' \<Longrightarrow> write sb (depth' + 1) v = write' sb (depth' + 1) v\<rbrakk>
   \<Longrightarrow> sliceToString write sb depth key slc = sliceToString write' sb' depth' key' slc'"
  unfolding sliceToString_def by (rule valuesToString_cong) auto

lemma objectToString_cong [fundef_cong]:
  "\<lbrakk>slc = slc'; sb = sb'; depth = depth'; key = key';
    \<And>sb v. v \<in> set slc' \<Longrightarrow> write sb (depth' + 1) v = write' sb (depth' + 1) v\<rbrakk>
   \<Longrightarrow> objectToString write sb depth key slc = objectToString write' sb' depth' key' slc'"
  unfolding objectToString_def by (rule valuesToString_cong) auto

subsection \<open>Attributes as text\<close>

text \<open>
  \<^verbatim>\<open>(*Attr).asString\<close>: the receiver is a pointer, \<open>None\<close> when nil. Each arm asserts the
  payload's dynamic type without a check.
\<close>

function Attr_asString :: "env \<Rightarrow> string \<Rightarrow> nat \<Rightarrow> Attr option \<Rightarrow> string option" where
  "Attr_asString E sb depth None = Some (valueToString sb nilValue nilValue)"
| "Attr_asString E sb depth (Some receiver) =
     (case Type receiver of
        AnyType \<Rightarrow> Some (valueToString sb (Key receiver) (Sprintf E (Value receiver)))
      | ObjectType \<Rightarrow>
          do { v \<leftarrow> as_Attrs (Value receiver);
               objectToString (\<lambda>sb depth a. Attr_asString E sb depth (Some a)) sb depth (Key receiver) v }
      | BoolType \<Rightarrow>
          do { v \<leftarrow> as_bool (Value receiver);
               Some (valueToString sb (Key receiver) (FormatBool v)) }
      | BoolsType \<Rightarrow>
          do { v \<leftarrow> as_bools (Value receiver);
               sliceToString (writeScalar FormatBool) sb depth (Key receiver) v }
      | TimeType \<Rightarrow>
          do { v \<leftarrow> as_Time (Value receiver);
               Some (valueToString sb (Key receiver) (Time_String E v)) }
      | TimesType \<Rightarrow>
          do { v \<leftarrow> as_Times (Value receiver);
               sliceToString (writeScalar (Time_String E)) sb depth (Key receiver) v }
      | DurationType \<Rightarrow>
          do { v \<leftarrow> as_Duration (Value receiver);
               Some (valueToString sb (Key receiver) (Duration_String E v)) }
      | DurationsType \<Rightarrow>
          do { v \<leftarrow> as_Durations (Value receiver);
               sliceToString (writeScalar (Duration_String E)) sb depth (Key receiver) v }
      | IntType \<Rightarrow>
          do { v \<leftarrow> as_int (Value receiver);
               Some (valueToString sb (Key receiver) (FormatInt v)) }
      | IntsType \<Rightarrow>
          do { v \<leftarrow> as_ints (Value receiver);
               sliceToString (writeScalar FormatInt) sb depth (Key receiver) v }
      | Int64Type \<Rightarrow>
          do { v \<leftarrow> as_int64 (Value receiver);
               Some (valueToString sb (Key receiver) (FormatInt v)) }
      | Int64sType \<Rightarrow>
          do { v \<leftarrow> as_int64s (Value receiver);
               sliceToString (writeScalar FormatInt) sb depth (Key receiver) v }
      | Uint64Type \<Rightarrow>
          do { v \<leftarrow> as_uint64 (Value receiver);
               Some (valueToString sb (Key receiver) (FormatUint v)) }
      | Uint64sType \<Rightarrow>
          do { v \<leftarrow> as_uint64s (Value receiver);
               sliceToString (writeScalar FormatUint) sb depth (Key receiver) v }
      | Float64Type \<Rightarrow>
          do { v \<leftarrow> as_float64 (Value receiver);
               Some (valueToString sb (Key receiver) (FormatFloat E v)) }
      | Float64sType \<Rightarrow>
          do { v \<leftarrow> as_float64s (Value receiver);
               sliceToString (writeScalar (FormatFloat E)) sb depth (Key receiver) v }
      | StringType \<Rightarrow>
          do { v \<leftarrow> as_string (Value receiver);
               Some (valueToString sb (Key receiver) v) }
      | StringsType \<Rightarrow>
          do { v \<leftarrow> as_strings (Value receiver);
               sliceToString (writeScalar (TrimSpace E)) sb depth (Key receiver) v }
      | OtherType n \<Rightarrow> Some (valueToString sb (Key receiver) (Sprintf E (Value receiver))))"
  by pat_completeness auto
termination
proof (relation "measure (\<lambda>(E, sb, depth, p). size_option size p)")
  show "wf (measure (\<lambda>(E, sb, depth, p). size_option size p))" by simp
next
  fix E :: env and sb sb' :: string and depth :: nat and receiver x a
  assume "as_Attrs (Value receiver) = Some x" and a: "a \<in> set x"
  then have val: "Value receiver = AttrsValue x" by (cases "Value receiver") auto
  from a have "size a \<le> size_list size x" by (rule size_list_estimation') simp
  with val have "size a < size receiver" by (cases receiver) simp
  then show "((E, sb', depth + 1, Some a), (E, sb, depth, Some receiver))
        \<in> measure (\<lambda>(E, sb, depth, p). size_option size p)" by simp
qed

definition Attr_String :: "env \<Rightarrow> Attr option \<Rightarrow> string option" where
  "Attr_String E receiver = Attr_asString E [] 0 receiver"

subsection \<open>Walking the chain: errors.As\<close>

text \<open>
  \<^verbatim>\<open>stderrors.As(err, &value)\<close> with \<^verbatim>\<open>value\<close> of type \<^verbatim>\<open>*StructuredError\<close>, as the
  standard library defines it: the chain is walked depth first; the first value whose
  dynamic type is \<^verbatim>\<open>*StructuredError\<close> (a nil pointer included) is stored in
  \<^verbatim>\<open>value\<close>; a nil \<^verbatim>\<open>Unwrap()\<close> result ends the walk and nil children of a multi-wrap
  are skipped. \<open>None\<close> is the result \<^verbatim>\<open>false\<close>.
\<close>

primrec errors_As :: "error \<Rightarrow> StructuredError option option"
  and errors_As_list :: "error list \<Rightarrow> StructuredError option option" where
  "errors_As NilError = None"
| "errors_As (StdError m) = None"
| "errors_As (WrapError m cause) = errors_As cause"
| "errors_As (WrapErrors m causes) = errors_As_list causes"
| "errors_As (Pointer p) = Some p"
| "errors_As_list [] = None"
| "errors_As_list (err # errs) =
     (case errors_As err of Some p \<Rightarrow> Some p | None \<Rightarrow> errors_As_list errs)"

text \<open>
  \<^verbatim>\<open>err.Error()\<close> of a value that is not a \<^verbatim>\<open>*StructuredError\<close>: the text it carries.
  The encoders call it only after \<open>errors_As\<close> has failed, so never on the other two
  constructors.
\<close>

fun plainError :: "error \<Rightarrow> string" where
  "plainError (StdError m) = m"
| "plainError (WrapError m cause) = m"
| "plainError (WrapErrors m causes) = m"
| "plainError _ = []"

subsection \<open>The normalizer\<close>

text \<open>
  Modelled from the spec: \<^verbatim>\<open>normalizeErrors(depth, &target, errs...)\<close> and
  \<^verbatim>\<open>normalizerTarget\<close> are declared in a file that is not part of the sources at hand;
  the encoders call it with depth zero on a node's \<^verbatim>\<open>Errors\<close> and render
  \<^verbatim>\<open>target.errs\<close>. The function below returns what is appended to \<^verbatim>\<open>target.errs\<close>,
  following the spec's rules for each candidate in order:
  \<^item> rule 5: once \<open>depth\<close> exceeds the configured maximum the candidate is emitted as it is;
  \<^item> rule 2: a candidate exposing exactly one wrapped cause that is itself a structured
    aggregate is replaced in place by that cause;
  \<^item> rule 3: a candidate exposing two or more wrapped causes is expanded in place, its
    children normalized at \<open>depth + 1\<close>;
  \<^item> rules 1 and 4: every other candidate (nil, a leaf, a structured aggregate itself)
    is kept as an entry.
\<close>

fun is_structured :: "error \<Rightarrow> bool" where
  "is_structured (Pointer p) = True"
| "is_structured _ = False"

function normalizeErrors :: "env \<Rightarrow> nat \<Rightarrow> error list \<Rightarrow> error list" where
  "normalizeErrors E depth [] = []"
| "normalizeErrors E depth (err # errs) =
     (if int depth > maxDepthMarshal E then [err]
      else case err of
          WrapError m cause \<Rightarrow> (if is_structured cause then [cause] else [err])
        | WrapErrors m causes \<Rightarrow>
            (if length causes \<ge> 2 then normalizeErrors E (depth + 1) causes
             else if length causes = 1 \<and> is_structured (hd causes) then [hd causes]
             else [err])
        | _ \<Rightarrow> [err])
     @ normalizeErrors E depth errs"
  by pat_completeness auto
termination
  by (relation "measure (\<lambda>(E, depth, errs). size_list size errs)") auto

lemma errors_As_size:
  "errors_As err = Some p \<Longrightarrow> size_option size p < size err"
  "errors_As_list errs = Some p \<Longrightarrow> size_option size p < size_list size errs"
  by (induction err and errs rule: errors_As.induct errors_As_list.induct)
     (auto split: option.splits)

lemma normalizeErrors_size:
  "x \<in> set (normalizeErrors E depth errs) \<Longrightarrow> size x \<le> size_list size errs"
proof (induction E depth errs rule: normalizeErrors.induct)
  case (1 E depth)
  then show ?case by simp
next
  case (2 E depth err errs)
  then show ?case
    by (cases err) (auto split: if_splits simp: hd_conv_nth length_Suc_conv)
qed

subsection \<open>Structured errors as text\<close>

text \<open>
  \<^verbatim>\<open>(*StructuredError).asString\<close> and \<^verbatim>\<open>errorToString\<close>. The tags are written with
  depth zero, as in the source; the normalizer is always entered at depth zero.
\<close>

function asString :: "env \<Rightarrow> string \<Rightarrow> nat \<Rightarrow> StructuredError option \<Rightarrow> string option"
  and errorToString :: "env \<Rightarrow> string \<Rightarrow> nat \<Rightarrow> error \<Rightarrow> string option" where
  "asString E sb depth None = Some (valueToString sb messageKey nilValue)"
| "asString E sb depth (Some receiver) =
     do {
       let sb = valueToString sb messageKey (cmpOr (Message receiver) nilValue);
       sb \<leftarrow> (if length (Tags receiver) > 0
              then sliceToString (writeScalar (TrimSpace E)) (sb @ comma @ newLine) 0 tagsKey
                     (Tags receiver)
              else Some sb);
       sb \<leftarrow> (if length (Attrs receiver) > 0
              then sliceToString (\<lambda>sb depth a. Attr_asString E sb depth (Some a))
                     (sb @ comma @ newLine) depth attrsKey (Attrs receiver)
              else Some sb);
       sb \<leftarrow> (if length (Errors receiver) > 0
              then let target = normalizeErrors E 0 (Errors receiver) in
                   sliceToString (\<lambda>sb depth err. errorToString E sb depth err)
                     (tabToString (sb @ comma @ newLine) depth) depth errorsKey target
              else Some sb);
       Some (if length (Stack receiver) > 0
             then valueToString (sb @ comma @ newLine) stackKey (Stack receiver) @ newLine
             else sb)
     }"
| "errorToString E sb depth err =
     (if err = NilError then Some (valueToString sb messageKey nilValue)
      else case errors_As err of
             Some p \<Rightarrow> asString E sb depth p
           | None \<Rightarrow>
               let errStr = TrimSpace E (plainError err)
               in Some (valueToString sb messageKey (cmpOr errStr nilValue)))"
  by pat_completeness auto
termination
proof (relation "measure (\<lambda>x. case x of Inl (E, sb, depth, p) \<Rightarrow> size_option size p
                                     | Inr (E, sb, depth, err) \<Rightarrow> size err)")
  show "wf (measure (\<lambda>x. case x of Inl (E, sb, depth, p) \<Rightarrow> size_option size p
                                  | Inr (E, sb, depth, err) \<Rightarrow> size err))"
    by simp
next
  fix E :: env and sb sb' :: string and depth depth' :: nat and receiver target err
  assume "target = normalizeErrors E 0 (Errors receiver)" and "err \<in> set target"
  then have "size err \<le> size_list size (Errors receiver)"
    by (simp add: normalizeErrors_size)
  then have "size err < size_option size (Some receiver)"
    by (cases receiver) simp
  then show "(Inr (E, sb', depth', err), Inl (E, sb, depth, Some receiver))
      \<in> measure (\<lambda>x. case x of Inl (E, sb, depth, p) \<Rightarrow> size_option size p
                             | Inr (E, sb, depth, err) \<Rightarrow> size err)"
    by simp
next
  fix E :: env and sb :: string and depth :: nat and err p
  assume "errors_As err = Some p"
  then have "size_option size p < size err"
    by (rule errors_As_size)
  then show "(Inl (E, sb, depth, p), Inr (E, sb, depth, err))
      \<in> measure (\<lambda>x. case x of Inl (E, sb, depth, p) \<Rightarrow> size_option size p
                             | Inr (E, sb, depth, err) \<Rightarrow> size err)"
    by simp
qed

declare asString.simps(2) [simp del] errorToString.simps [simp del]

text \<open>\<^verbatim>\<open>Error()\<close> writes into a fresh builder at depth zero; \<^verbatim>\<open>String()\<close> calls \<^verbatim>\<open>Error()\<close>.\<close>

definition Error :: "env \<Rightarrow> StructuredError option \<Rightarrow> string option" where
  "Error E receiver = asString E [] 0 receiver"

definition String :: "env \<Rightarrow> StructuredError option \<Rightarrow> string option" where
  "String E receiver = Error E receiver"

section \<open>The structured-log encoder\<close>

subsection \<open>The log/slog values the encoder builds\<close>

text \<open>
  \<^verbatim>\<open>slog.Value\<close> by its kind and \<^verbatim>\<open>slog.Attr\<close> as a key with a value. The constructor
  functions are the standard library's: \<^verbatim>\<open>slog.GroupValue\<close> removes the attributes whose
  value is an empty group before it stores the rest (\<^verbatim>\<open>countEmptyGroups\<close>,
  \<^verbatim>\<open>isEmptyGroup\<close> in \<^verbatim>\<open>log/slog/value.go\<close>), \<^verbatim>\<open>slog.Group(key, attrs...)\<close> is an
  attribute holding \<^verbatim>\<open>GroupValue(attrs...)\<close>, and \<^verbatim>\<open>slog.Any\<close> stores
  \<^verbatim>\<open>AnyValue(v)\<close>, which picks the kind from the dynamic type of \<open>v\<close>.
\<close>

datatype slog_Value =
    KindAny any
  | KindBool bool
  | KindDuration duration
  | KindFloat64 float64
  | KindInt64 "64 word"
  | KindString string
  | KindTime time
  | KindUint64 "64 word"
  | KindGroup "slog_Attr list"
and slog_Attr = slog_Attr (AttrKey: string) (AttrValue: slog_Value)

fun isEmptyGroup :: "slog_Value \<Rightarrow> bool" where
  "isEmptyGroup (KindGroup as) = (length as = 0)"
| "isEmptyGroup _ = False"

definition slog_GroupValue :: "slog_Attr list \<Rightarrow> slog_Value" where
  "slog_GroupValue as = KindGroup (filter (\<lambda>a. \<not> isEmptyGroup (AttrValue a)) as)"

definition slog_Group :: "string \<Rightarrow> slog_Attr list \<Rightarrow> slog_Attr" where
  "slog_Group key as = slog_Attr key (slog_GroupValue as)"

definition slog_String :: "string \<Rightarrow> string \<Rightarrow> slog_Attr" where
  "slog_String key v = slog_Attr key (KindString v)"
definition slog_Bool :: "string \<Rightarrow> bool \<Rightarrow> slog_Attr" where
  "slog_Bool key v = slog_Attr key (KindBool v)"
definition slog_Int :: "string \<Rightarrow> 64 word \<Rightarrow> slog_Attr" where
  "slog_Int key v = slog_Attr key (KindInt64 v)"
definition slog_Int64 :: "string \<Rightarrow> 64 word \<Rightarrow> slog_Attr" where
  "slog_Int64 key v = slog_Attr key (KindInt64 v)"
definition slog_Uint64 :: "string \<Rightarrow> 64 word \<Rightarrow> slog_Attr" where
  "slog_Uint64 key v = slog_Attr key (KindUint64 v)"
definition slog_Float64 :: "string \<Rightarrow> float64 \<Rightarrow> slog_Attr" where
  "slog_Float64 key v = slog_Attr key (KindFloat64 v)"
definition slog_Time :: "string \<Rightarrow> time \<Rightarrow> slog_Attr" where
  "slog_Time key v = slog_Attr key (KindTime v)"
definition slog_Duration :: "string \<Rightarrow> duration \<Rightarrow> slog_Attr" where
  "slog_Duration key v = slog_Attr key (KindDuration v)"

fun slog_AnyValue :: "any \<Rightarrow> slog_Value" where
  "slog_AnyValue (StringValue v) = KindString v"
| "slog_AnyValue (IntValue v) = KindInt64 v"
| "slog_AnyValue (Int64Value v) = KindInt64 v"
| "slog_AnyValue (Uint64Value v) = KindUint64 v"
| "slog_AnyValue (BoolValue v) = KindBool v"
| "slog_AnyValue (DurationValue v) = KindDuration v"
| "slog_AnyValue (TimeValue v) = KindTime v"
| "slog_AnyValue (Float64Value v) = KindFloat64 v"
| "slog_AnyValue v = KindAny v"

definition slog_Any :: "string \<Rightarrow> any \<Rightarrow> slog_Attr" where
  "slog_Any key v = slog_Attr key (slog_AnyValue v)"

text \<open>\<^verbatim>\<open>strings.Split(s, newLine)\<close>: the pieces of \<open>s\<close> between line feeds, at least one.\<close>

fun splitByte :: "char \<Rightarrow> string \<Rightarrow> string list" where
  "splitByte c [] = [[]]"
| "splitByte c (x # xs) =
     (if x = c then [] # splitByte c xs
      else case splitByte c xs of
             y # ys \<Rightarrow> (x # y) # ys
           | [] \<Rightarrow> [[x]])"

definition Split_newLine :: "string \<Rightarrow> string list" where
  "Split_newLine s = splitByte (CHR 0x0A) s"

subsection \<open>sliceToSlog, asSlog, errorToSlog, LogValue\<close>

text \<open>
  As in the text encoder, the arms of the type switch in \<^verbatim>\<open>sliceToSlog\<close> are one loop
  that appends one attribute per element; \<open>arm\<close> builds the attribute from the index
  and the element.
\<close>

fun rangeSlog ::
  "(nat \<Rightarrow> 'a \<Rightarrow> slog_Attr option) \<Rightarrow> nat \<Rightarrow> 'a list \<Rightarrow> slog_Attr list \<Rightarrow> slog_Attr list option" where
  "rangeSlog arm i [] attrs = Some attrs"
| "rangeSlog arm i (v # values) attrs =
     do { a \<leftarrow> arm i v; rangeSlog arm (i + 1) values (attrs @ [a]) }"

definition sliceToSlog :: "(nat \<Rightarrow> 'a \<Rightarrow> slog_Attr option) \<Rightarrow> string \<Rightarrow> 'a list \<Rightarrow> slog_Attr option" where
  "sliceToSlog arm key slc =
     (if length slc = 0 then Some (slog_Group key [])
      else do {
        attrs \<leftarrow> rangeSlog arm 0 slc [];
        Some (slog_Attr key (slog_GroupValue attrs))
      })"

definition slogScalar :: "(string \<Rightarrow> 'a \<Rightarrow> slog_Attr) \<Rightarrow> nat \<Rightarrow> 'a \<Rightarrow> slog_Attr option" where
  "slogScalar f i v = Some (f (Itoa (int i)) v)"

lemma rangeSlog_cong [fundef_cong]:
  "\<lbrakk>values = values'; i = i'; attrs = attrs';
    \<And>i v. v \<in> set values' \<Longrightarrow> arm i v = arm' i v\<rbrakk>
   \<Longrightarrow> rangeSlog arm i values attrs = rangeSlog arm' i' values' attrs'"
proof (induction values' arbitrary: i i' attrs attrs' "values")
  case Nil
  then show ?case by simp
next
  case (Cons a values')
  then show ?case by (auto intro!: Option.bind_cong)
qed

lemma sliceToSlog_cong [fundef_cong]:
  "\<lbrakk>slc = slc'; key = key'; \<And>i v. v \<in> set slc' \<Longrightarrow> arm i v = arm' i v\<rbrakk>
   \<Longrightarrow> sliceToSlog arm key slc = sliceToSlog arm' key' slc'"
  unfolding sliceToSlog_def
  by (auto intro!: Option.bind_cong rangeSlog_cong)

function Attr_asSlog :: "env \<Rightarrow> Attr option \<Rightarrow> slog_Attr option" where
  "Attr_asSlog E None = Some (slog_String nilValue nilValue)"
| "Attr_asSlog E (Some receiver) =
     (case Type receiver of
        AnyType \<Rightarrow> Some (slog_Any (Key receiver) (Value receiver))
      | ObjectType \<Rightarrow>
          do { v \<leftarrow> as_Attrs (Value receiver);
               sliceToSlog (\<lambda>i a. Attr_asSlog E (Some a)) (Key receiver) v }
      | BoolType \<Rightarrow> do { v \<leftarrow> as_bool (Value receiver); Some (slog_Bool (Key receiver) v) }
      | BoolsType \<Rightarrow>
          do { v \<leftarrow> as_bools (Value receiver); sliceToSlog (slogScalar slog_Bool) (Key receiver) v }
      | TimeType \<Rightarrow> do { v \<leftarrow> as_Time (Value receiver); Some (slog_Time (Key receiver) v) }
      | TimesType \<Rightarrow>
          do { v \<leftarrow> as_Times (Value receiver); sliceToSlog (slogScalar slog_Time) (Key receiver) v }
      | DurationType \<Rightarrow>
          do { v \<leftarrow> as_Duration (Value receiver); Some (slog_Duration (Key receiver) v) }
      | DurationsType \<Rightarrow>
          do { v \<leftarrow> as_Durations (Value receiver);
               sliceToSlog (slogScalar slog_Duration) (Key receiver) v }
      | IntType \<Rightarrow> do { v \<leftarrow> as_int (Value receiver); Some (slog_Int (Key receiver) v) }
      | IntsType \<Rightarrow>
          do { v \<leftarrow> as_ints (Value receiver); sliceToSlog (slogScalar slog_Int) (Key receiver) v }
      | Int64Type \<Rightarrow> do { v \<leftarrow> as_int64 (Value receiver); Some (slog_Int64 (Key receiver) v) }
      | Int64sType \<Rightarrow>
          do { v \<leftarrow> as_int64s (Value receiver); sliceToSlog (slogScalar slog_Int64) (Key receiver) v }
      | Uint64Type \<Rightarrow> do { v \<leftarrow> as_uint64 (Value receiver); Some (slog_Uint64 (Key receiver) v) }
      | Uint64sType \<Rightarrow>
          do { v \<leftarrow> as_uint64s (Value receiver);
               sliceToSlog (slogScalar slog_Uint64) (Key receiver) v }
      | Float64Type \<Rightarrow>
          do { v \<leftarrow> as_float64 (Value receiver); Some (slog_Float64 (Key receiver) v) }
      | Float64sType \<Rightarrow>
          do { v \<leftarrow> as_float64s (Value receiver);
               sliceToSlog (slogScalar slog_Float64) (Key receiver) v }
      | StringType \<Rightarrow> do { v \<leftarrow> as_string (Value receiver); Some (slog_String (Key receiver) v) }
      | StringsType \<Rightarrow>
          do { v \<leftarrow> as_strings (Value receiver);
               sliceToSlog (slogScalar (\<lambda>key v. slog_String key (TrimSpace E v))) (Key receiver) v }
      | OtherType n \<Rightarrow> Some (slog_Any (Key receiver) (Value receiver)))"
  by pat_completeness auto
termination
proof (relation "measure (\<lambda>(E, p). size_option size p)")
  show "wf (measure (\<lambda>(E, p). size_option size p))" by simp
next
  fix E :: env and receiver x a
  assume "as_Attrs (Value receiver) = Some x" and a: "a \<in> set x"
  then have val: "Value receiver = AttrsValue x" by (cases "Value receiver") auto
  from a have "size a \<le> size_list size x" by (rule size_list_estimation') simp
  with val have "size a < size receiver" by (cases receiver) simp
  then show "((E, Some a), (E, Some receiver)) \<in> measure (\<lambda>(E, p). size_option size p)"
    by simp
qed

definition Attr_LogValue :: "env \<Rightarrow> Attr option \<Rightarrow> slog_Value option" where
  "Attr_LogValue E receiver = do { a \<leftarrow> Attr_asSlog E receiver; Some (slog_GroupValue [a]) }"

text \<open>
  \<^verbatim>\<open>(*StructuredError).LogValue\<close> and \<^verbatim>\<open>errorToSlog\<close>. The count \<^verbatim>\<open>length\<close> computed
  first in the source is only the capacity of \<^verbatim>\<open>values\<close>.
\<close>

function LogValue :: "env \<Rightarrow> StructuredError option \<Rightarrow> slog_Value option"
  and errorToSlog :: "env \<Rightarrow> string \<Rightarrow> error \<Rightarrow> slog_Attr option" where
  "LogValue E None = Some (slog_GroupValue [slog_String messageKey nilValue])"
| "LogValue E (Some receiver) =
     do {
       let values = [slog_String messageKey (cmpOr (Message receiver) nilValue)];
       values \<leftarrow> (if length (Tags receiver) > 0
                  then do { a \<leftarrow> sliceToSlog (slogScalar (\<lambda>key v. slog_String key (TrimSpace E v)))
                                   tagsKey (Tags receiver);
                            Some (values @ [a]) }
                  else Some values);
       values \<leftarrow> (if length (Attrs receiver) > 0
                  then do { a \<leftarrow> sliceToSlog (\<lambda>i a. Attr_asSlog E (Some a)) attrsKey (Attrs receiver);
                            Some (values @ [a]) }
                  else Some values);
       values \<leftarrow> (if length (Errors receiver) > 0
                  then let target = normalizeErrors E 0 (Errors receiver) in
                       do { a \<leftarrow> sliceToSlog (\<lambda>i err. errorToSlog E (Itoa (int i)) err) errorsKey target;
                            Some (values @ [a]) }
                  else Some values);
       values \<leftarrow> (if length (Stack receiver) > 0
                  then do { a \<leftarrow> sliceToSlog (slogScalar (\<lambda>key v. slog_String key (TrimSpace E v)))
                                   stackKey (Split_newLine (Stack receiver));
                            Some (values @ [a]) }
                  else Some values);
       Some (slog_GroupValue values)
     }"
| "errorToSlog E key err =
     (if err = NilError then Some (slog_Group key [slog_String messageKey nilValue])
      else case errors_As err of
             Some p \<Rightarrow> do { v \<leftarrow> LogValue E p; Some (slog_Attr key v) }
           | None \<Rightarrow>
               let errStr = TrimSpace E (plainError err)
               in Some (slog_Group key [slog_String messageKey (cmpOr errStr nilValue)]))"
  by pat_completeness auto
termination
proof (relation "measure (\<lambda>x. case x of Inl (E, p) \<Rightarrow> size_option size p
                                     | Inr (E, key, err) \<Rightarrow> size err)")
  show "wf (measure (\<lambda>x. case x of Inl (E, p) \<Rightarrow> size_option size p
                                  | Inr (E, key, err) \<Rightarrow> size err))"
    by simp
next
  fix E :: env and key :: string and receiver target err
  assume "target = normalizeErrors E 0 (Errors receiver)" and "err \<in> set target"
  then have "size err \<le> size_list size (Errors receiver)"
    by (simp add: normalizeErrors_size)
  then have "size err < size_option size (Some receiver)"
    by (cases receiver) simp
  then show "(Inr (E, key, err), Inl (E, Some receiver))
      \<in> measure (\<lambda>x. case x of Inl (E, p) \<Rightarrow> size_option size p
                             | Inr (E, key, err) \<Rightarrow> size err)"
    by simp
next
  fix E :: env and key :: string and err p
  assume "errors_As err = Some p"
  then have "size_option size p < size err"
    by (rule errors_As_size)
  then show "(Inl (E, p), Inr (E, key, err))
      \<in> measure (\<lambda>x. case x of Inl (E, p) \<Rightarrow> size_option size p
                             | Inr (E, key, err) \<Rightarrow> size err)"
    by simp
qed

declare LogValue.simps(2) [simp del] errorToSlog.simps [simp del]

declare Attr_asString.simps(2) [simp del] Attr_asSlog.simps(2) [simp del]

section \<open>Construction\<close>

text \<open>
  Modelled from the spec: the constructor and the builder methods are declared in a file
  that is not part of the sources at hand. \<^verbatim>\<open>New(message)\<close> yields a pointer to a fresh
  aggregate with that message and every other field empty; \<^verbatim>\<open>WithErrors\<close> replaces the
  \<^verbatim>\<open>Errors\<close>, \<^verbatim>\<open>WithAttrs\<close> and \<^verbatim>\<open>WithTags\<close> append, \<^verbatim>\<open>WithStack\<close> overwrites.
\<close>

definition New :: "string \<Rightarrow> StructuredError" where
  "New message = StructuredError message [] [] [] [] False"

definition WithErrors :: "error list \<Rightarrow> StructuredError \<Rightarrow> StructuredError" where
  "WithErrors errs e = StructuredError (Message e) (Attrs e) errs (Tags e) (Stack e) (joined e)"

definition WithAttrs :: "Attr list \<Rightarrow> StructuredError \<Rightarrow> StructuredError" where
  "WithAttrs attrs e =
     StructuredError (Message e) (Attrs e @ attrs) (Errors e) (Tags e) (Stack e) (joined e)"

definition WithTags :: "string list \<Rightarrow> StructuredError \<Rightarrow> StructuredError" where
  "WithTags tags e =
     StructuredError (Message e) (Attrs e) (Errors e) (Tags e @ tags) (Stack e) (joined e)"

definition WithStack :: "string \<Rightarrow> StructuredError \<Rightarrow> StructuredError" where
  "WithStack stack e =
     StructuredError (Message e) (Attrs e) (Errors e) (Tags e) stack (joined e)"

text \<open>
  Modelled from the spec: the attribute constructors (also declared outside the sources
  at hand; the tests give their results). There is one per scalar type, one plural per
  scalar type, \<^verbatim>\<open>Object\<close> for a nested group and \<^verbatim>\<open>Any\<close> for an arbitrary value.
\<close>

definition Any :: "string \<Rightarrow> any \<Rightarrow> Attr" where "Any key v = Attr key v AnyType"
definition Object :: "string \<Rightarrow> Attr list \<Rightarrow> Attr" where
  "Object key attrs = Attr key (AttrsValue attrs) ObjectType"
definition Bool :: "string \<Rightarrow> bool \<Rightarrow> Attr" where "Bool key v = Attr key (BoolValue v) BoolType"
definition Bools :: "string \<Rightarrow> bool list \<Rightarrow> Attr" where
  "Bools key v = Attr key (BoolsValue v) BoolsType"
definition Time :: "string \<Rightarrow> time \<Rightarrow> Attr" where "Time key v = Attr key (TimeValue v) TimeType"
definition Times :: "string \<Rightarrow> time list \<Rightarrow> Attr" where
  "Times key v = Attr key (TimesValue v) TimesType"
definition Duration :: "string \<Rightarrow> duration \<Rightarrow> Attr" where
  "Duration key v = Attr key (DurationValue v) DurationType"
definition Durations :: "string \<Rightarrow> duration list \<Rightarrow> Attr" where
  "Durations key v = Attr key (DurationsValue v) DurationsType"
definition Int_attr :: "string \<Rightarrow> 64 word \<Rightarrow> Attr" where
  "Int_attr key v = Attr key (IntValue v) IntType"
definition Ints :: "string \<Rightarrow> 64 word list \<Rightarrow> Attr" where
  "Ints key v = Attr key (IntsValue v) IntsType"
definition Int64 :: "string \<Rightarrow> 64 word \<Rightarrow> Attr" where
  "Int64 key v = Attr key (Int64Value v) Int64Type"
definition Int64s :: "string \<Rightarrow> 64 word list \<Rightarrow> Attr" where
  "Int64s key v = Attr key (Int64sValue v) Int64sType"
definition Uint64 :: "string \<Rightarrow> 64 word \<Rightarrow> Attr" where
  "Uint64 key v = Attr key (Uint64Value v) Uint64Type"
definition Uint64s :: "string \<Rightarrow> 64 word list \<Rightarrow> Attr" where
  "Uint64s key v = Attr key (Uint64sValue v) Uint64sType"
definition Float64 :: "string \<Rightarrow> float64 \<Rightarrow> Attr" where
  "Float64 key v = Attr key (Float64Value v) Float64Type"
definition Float64s :: "string \<Rightarrow> float64 list \<Rightarrow> Attr" where
  "Float64s key v = Attr key (Float64sValue v) Float64sType"
definition String_attr :: "string \<Rightarrow> string \<Rightarrow> Attr" where
  "String_attr key v = Attr key (StringValue v) StringType"
definition Strings :: "string \<Rightarrow> string list \<Rightarrow> Attr" where
  "Strings key v = Attr key (StringsValue v) StringsType"

lemmas attr_constructors =
  Any_def Object_def Bool_def Bools_def Time_def Times_def Duration_def Durations_def
  Int_attr_def Ints_def Int64_def Int64s_def Uint64_def Uint64s_def Float64_def Float64s_def
  String_attr_def Strings_def

text \<open>
  The correspondence between tag and payload that the constructors establish: the
  payload has the dynamic type the tag names. \<^verbatim>\<open>AnyType\<close> and tags outside the named
  constants go with every payload. \<open>matches\<close> demands it of an attribute and, under an
  \<^verbatim>\<open>ObjectType\<close> tag, of every member of the group.
\<close>

fun typeOf :: "any \<Rightarrow> Type option" where
  "typeOf NilValue = None"
| "typeOf (AttrsValue v) = Some ObjectType"
| "typeOf (BoolValue v) = Some BoolType"
| "typeOf (BoolsValue v) = Some BoolsType"
| "typeOf (TimeValue v) = Some TimeType"
| "typeOf (TimesValue v) = Some TimesType"
| "typeOf (DurationValue v) = Some DurationType"
| "typeOf (DurationsValue v) = Some DurationsType"
| "typeOf (IntValue v) = Some IntType"
| "typeOf (IntsValue v) = Some IntsType"
| "typeOf (Int64Value v) = Some Int64Type"
| "typeOf (Int64sValue v) = Some Int64sType"
| "typeOf (Uint64Value v) = Some Uint64Type"
| "typeOf (Uint64sValue v) = Some Uint64sType"
| "typeOf (Float64Value v) = Some Float64Type"
| "typeOf (Float64sValue v) = Some Float64sType"
| "typeOf (StringValue v) = Some StringType"
| "typeOf (StringsValue v) = Some StringsType"
| "typeOf (OtherValue n) = None"

fun isNamed :: "Type \<Rightarrow> bool" where
  "isNamed (OtherType n) = False"
| "isNamed t = True"

definition payload_ok :: "Type \<Rightarrow> any \<Rightarrow> bool" where
  "payload_ok t v = (t = AnyType \<or> \<not> isNamed t \<or> typeOf v = Some t)"

fun matches :: "Attr \<Rightarrow> bool" where
  "matches (Attr key v t) =
     (payload_ok t v \<and>
      (case v of
         AttrsValue attrs \<Rightarrow> (if t = ObjectType then list_all matches attrs else True)
       | _ \<Rightarrow> True))"

text \<open>
  An environment for the examples: the default maximum depth, \<^verbatim>\<open>TrimSpace\<close> on ASCII
  white space, and placeholders for the other formatters.
\<close>

definition asciiSpace :: "char \<Rightarrow> bool" where
  "asciiSpace c = (c \<in> set [CHR 0x09, CHR 0x0A, CHR 0x0B, CHR 0x0C, CHR 0x0D, CHR 0x20])"

definition trimAscii :: "string \<Rightarrow> string" where
  "trimAscii s = rev (dropWhile asciiSpace (rev (dropWhile asciiSpace s)))"

definition exampleEnv :: env where
  "exampleEnv =
     \<lparr> maxDepthMarshal = 100, TrimSpace = trimAscii, Sprintf = (\<lambda>v. ''<any>''),
       Time_String = (\<lambda>t. Itoa t), Duration_String = (\<lambda>d. FormatInt d @ ''ns''),
       FormatFloat = (\<lambda>f. FormatUint f) \<rparr>"

section \<open>The sections of the text rendering\<close>

text \<open>
  The five parts that \<^verbatim>\<open>asString\<close> writes for a non-nil receiver, each as the text it
  adds to the builder: the message, and for every non-empty field a separator followed
  by the field's rendering.
\<close>

definition messageSection :: "StructuredError \<Rightarrow> string" where
  "messageSection r = valueToString [] messageKey (cmpOr (Message r) nilValue)"

definition tagsSection :: "env \<Rightarrow> StructuredError \<Rightarrow> string option" where
  "tagsSection E r =
     (if Tags r = [] then Some []
      else map_option ((@) (comma @ newLine))
             (sliceToString (writeScalar (TrimSpace E)) [] 0 tagsKey (Tags r)))"

definition attrsSection :: "env \<Rightarrow> nat \<Rightarrow> StructuredError \<Rightarrow> string option" where
  "attrsSection E depth r =
     (if Attrs r = [] then Some []
      else map_option ((@) (comma @ newLine))
             (sliceToString (\<lambda>sb depth a. Attr_asString E sb depth (Some a)) [] depth attrsKey (Attrs r)))"

definition errorsSection :: "env \<Rightarrow> nat \<Rightarrow> StructuredError \<Rightarrow> string option" where
  "errorsSection E depth r =
     (if Errors r = [] then Some []
      else map_option ((@) (tabToString (comma @ newLine) depth))
             (sliceToString (\<lambda>sb depth err. errorToString E sb depth err) [] depth errorsKey
                (normalizeErrors E 0 (Errors r))))"

definition stackSection :: "StructuredError \<Rightarrow> string" where
  "stackSection r =
     (if Stack r = [] then []
      else valueToString (comma @ newLine) stackKey (Stack r) @ newLine)"

section \<open>The sections of the structured-log rendering\<close>

text \<open>An optional section: the attribute of a field, when the field is not empty.\<close>

definition slogSection :: "bool \<Rightarrow> slog_Attr option \<Rightarrow> slog_Attr list option" where
  "slogSection present a = (if present then map_option (\<lambda>x. [x]) a else Some [])"

text \<open>
  The attributes whose structured-log value is an empty group: a plural without
  elements, and an \<^verbatim>\<open>Object\<close> all of whose members are such. \<^verbatim>\<open>slog.GroupValue\<close> drops
  them from the group they are put into.
\<close>

fun slogEmpty :: "Attr \<Rightarrow> bool" where
  "slogEmpty (Attr key v t) =
     (case v of
        AttrsValue attrs \<Rightarrow> t = ObjectType \<and> list_all slogEmpty attrs
      | BoolsValue vs \<Rightarrow> t = BoolsType \<and> vs = []
      | TimesValue vs \<Rightarrow> t = TimesType \<and> vs = []
      | DurationsValue vs \<Rightarrow> t = DurationsType \<and> vs = []
      | IntsValue vs \<Rightarrow> t = IntsType \<and> vs = []
      | Int64sValue vs \<Rightarrow> t = Int64sType \<and> vs = []
      | Uint64sValue vs \<Rightarrow> t = Uint64sType \<and> vs = []
      | Float64sValue vs \<Rightarrow> t = Float64sType \<and> vs = []
      | StringsValue vs \<Rightarrow> t = StringsType \<and> vs = []
      | _ \<Rightarrow> False)"

section \<open>Stored graphs: sharing and cycles\<close>

text \<open>
  Go error values are references: \<^verbatim>\<open>With*\<close> mutates the receiver, so an aggregate can
  hold itself among its \<^verbatim>\<open>Errors\<close>, and a value with \<^verbatim>\<open>Unwrap\<close> can lead back to
  itself. For such graphs the contents live in a store. A reference is the nil
  interface, a \<^verbatim>\<open>*StructuredError\<close> (nil pointer or the address of a node) or the
  address of any other error object; an object is a leaf, a value with
  \<^verbatim>\<open>Unwrap() error\<close> or a value with \<^verbatim>\<open>Unwrap() []error\<close>, each with its own message.
\<close>

type_synonym addr = nat

datatype ref = NilRef | AggRef "addr option" | ObjRef addr

datatype obj =
    StdObj string
  | WrapObj string ref
  | WrapsObj string "ref list"

record node =
  nodeMessage :: string
  nodeAttrs :: "Attr list"
  nodeErrors :: "ref list"
  nodeTags :: "string list"
  nodeStack :: string
  nodeJoined :: bool

record heap =
  aggs :: "addr \<Rightarrow> node"
  objs :: "addr \<Rightarrow> obj"

text \<open>
  A call on a store either does not come back within the given number of nested calls
  (\<open>Timeout\<close>), panics in a type assertion (\<open>Panic\<close>) or returns (\<open>Ok\<close>). A call that is
  \<open>Timeout\<close> for every amount of fuel is a call that never returns.
\<close>

datatype 'a result = Timeout | Panic | Ok 'a

fun bindR :: "'a result \<Rightarrow> ('a \<Rightarrow> 'b result) \<Rightarrow> 'b result" where
  "bindR Timeout f = Timeout"
| "bindR Panic f = Panic"
| "bindR (Ok x) f = f x"

fun liftO :: "'a option \<Rightarrow> 'a result" where
  "liftO None = Panic"
| "liftO (Some x) = Ok x"

text \<open>
  Modelled from the spec: \<^verbatim>\<open>normalizeErrors\<close> on references, the rules of
  \<open>normalizeErrors\<close> above with the objects looked up in the store. The recursion
  deepens only through rule 3, which raises the depth, and stops beyond the maximum
  depth: this is a total function on every store, cyclic or not.
\<close>

fun is_structured_heap :: "ref \<Rightarrow> bool" where
  "is_structured_heap (AggRef p) = True"
| "is_structured_heap _ = False"

function normalizeErrors_heap :: "env \<Rightarrow> heap \<Rightarrow> nat \<Rightarrow> ref list \<Rightarrow> ref list" where
  "normalizeErrors_heap E h depth [] = []"
| "normalizeErrors_heap E h depth (err # errs) =
     (if int depth > maxDepthMarshal E then [err]
      else case err of
          ObjRef a \<Rightarrow>
            (case objs h a of
               WrapObj m cause \<Rightarrow> (if is_structured_heap cause then [cause] else [err])
             | WrapsObj m causes \<Rightarrow>
                 (if length causes \<ge> 2 then normalizeErrors_heap E h (depth + 1) causes
                  else if length causes = 1 \<and> is_structured_heap (hd causes) then [hd causes]
                  else [err])
             | StdObj m \<Rightarrow> [err])
        | _ \<Rightarrow> [err])
     @ normalizeErrors_heap E h depth errs"
  by pat_completeness auto
termination
  by (relation "measures [\<lambda>(E, h, depth, errs). nat (maxDepthMarshal E + 1 - int depth),
                          \<lambda>(E, h, depth, errs). length errs]") auto

text \<open>
  \<^verbatim>\<open>errors.As\<close> with a \<^verbatim>\<open>*StructuredError\<close> target follows \<^verbatim>\<open>Unwrap\<close> until it
  finds one, depth first through the causes of a multi-wrap. Nothing in it bounds the
  walk, so it is given fuel.
\<close>

fun firstFound :: "('a \<Rightarrow> 'b option result) \<Rightarrow> 'a list \<Rightarrow> 'b option result" where
  "firstFound f [] = Ok None"
| "firstFound f (x # xs) =
     (case f x of
        Ok None \<Rightarrow> firstFound f xs
      | r \<Rightarrow> r)"

fun errors_As_heap :: "nat \<Rightarrow> heap \<Rightarrow> ref \<Rightarrow> addr option option result" where
  "errors_As_heap 0 h err = Timeout"
| "errors_As_heap (Suc fuel) h NilRef = Ok None"
| "errors_As_heap (Suc fuel) h (AggRef p) = Ok (Some p)"
| "errors_As_heap (Suc fuel) h (ObjRef a) =
     (case objs h a of
        StdObj m \<Rightarrow> Ok None
      | WrapObj m cause \<Rightarrow> errors_As_heap fuel h cause
      | WrapsObj m causes \<Rightarrow> firstFound (errors_As_heap fuel h) causes)"

fun plainError_heap :: "heap \<Rightarrow> ref \<Rightarrow> string" where
  "plainError_heap h (ObjRef a) =
     (case objs h a of StdObj m \<Rightarrow> m | WrapObj m cause \<Rightarrow> m | WrapsObj m causes \<Rightarrow> m)"
| "plainError_heap h _ = []"

text \<open>
  The text encoder of \<^verbatim>\<open>string.go\<close> on a store: \<^verbatim>\<open>asString\<close> and \<^verbatim>\<open>errorToString\<close>
  as above, with the \<^verbatim>\<open>[]error\<close> arm of \<^verbatim>\<open>sliceToString\<close> written over results. Tags
  and attributes hold no references and are rendered by the functions above.
\<close>

fun rangeValues_heap ::
  "(string \<Rightarrow> nat \<Rightarrow> 'a \<Rightarrow> string result) \<Rightarrow> string \<Rightarrow> nat \<Rightarrow> nat \<Rightarrow> 'a list \<Rightarrow> string result" where
  "rangeValues_heap write sb depth index [] = Ok sb"
| "rangeValues_heap write sb depth index (v # values) =
     bindR (write (tabToString (if index > 0 then sb @ comma @ newLine else sb) depth) depth v)
       (\<lambda>sb. rangeValues_heap write sb depth (index + 1) values)"

definition valuesToString_heap ::
  "(string \<Rightarrow> nat \<Rightarrow> 'a \<Rightarrow> string result) \<Rightarrow> string \<Rightarrow> nat \<Rightarrow> string \<Rightarrow> 'a list \<Rightarrow> string \<Rightarrow> string
     \<Rightarrow> string result" where
  "valuesToString_heap write sb depth key slc opener closer =
     (let sb = sb @ parenthesisOpen @ key @ equals @ opener in
      if length slc = 0 then Ok (sb @ closer)
      else bindR (rangeValues_heap write (sb @ newLine) (depth + 1) 0 slc)
             (\<lambda>sb. Ok (tabToString (sb @ newLine) depth @ closer @ parenthesisClose)))"

fun asString_heap :: "nat \<Rightarrow> env \<Rightarrow> heap \<Rightarrow> string \<Rightarrow> nat \<Rightarrow> addr option \<Rightarrow> string result"
  and errorToString_heap :: "nat \<Rightarrow> env \<Rightarrow> heap \<Rightarrow> string \<Rightarrow> nat \<Rightarrow> ref \<Rightarrow> string result" where
  "asString_heap 0 E h sb depth p = Timeout"
| "asString_heap (Suc fuel) E h sb depth None = Ok (valueToString sb messageKey nilValue)"
| "asString_heap (Suc fuel) E h sb depth (Some a) =
     (let receiver = aggs h a;
          sb = valueToString sb messageKey (cmpOr (nodeMessage receiver) nilValue)
      in
      bindR (if length (nodeTags receiver) > 0
             then liftO (sliceToString (writeScalar (TrimSpace E)) (sb @ comma @ newLine) 0 tagsKey
                           (nodeTags receiver))
             else Ok sb)
       (\<lambda>sb.
      bindR (if length (nodeAttrs receiver) > 0
             then liftO (sliceToString (\<lambda>sb depth a. Attr_asString E sb depth (Some a))
                           (sb @ comma @ newLine) depth attrsKey (nodeAttrs receiver))
             else Ok sb)
       (\<lambda>sb.
      bindR (if length (nodeErrors receiver) > 0
             then let target = normalizeErrors_heap E h 0 (nodeErrors receiver) in
                  valuesToString_heap (\<lambda>sb depth err. errorToString_heap fuel E h sb depth err)
                    (tabToString (sb @ comma @ newLine) depth) depth errorsKey target
                    bracketOpen bracketClose
             else Ok sb)
       (\<lambda>sb.
      Ok (if length (nodeStack receiver) > 0
          then valueToString (sb @ comma @ newLine) stackKey (nodeStack receiver) @ newLine
          else sb)))))"
| "errorToString_heap 0 E h sb depth err = Timeout"
| "errorToString_heap (Suc fuel) E h sb depth err =
     (if err = NilRef then Ok (valueToString sb messageKey nilValue)
      else case errors_As_heap fuel h err of
             Timeout \<Rightarrow> Timeout
           | Panic \<Rightarrow> Panic
           | Ok (Some p) \<Rightarrow> asString_heap fuel E h sb depth p
           | Ok None \<Rightarrow>
               let errStr = TrimSpace E (plainError_heap h err)
               in Ok (valueToString sb messageKey (cmpOr errStr nilValue)))"

definition Error_heap :: "nat \<Rightarrow> env \<Rightarrow> heap \<Rightarrow> addr option \<Rightarrow> string result" where
  "Error_heap fuel E h receiver = asString_heap fuel E h [] 0 receiver"

text \<open>
  The structured-log encoder of \<^verbatim>\<open>slog.go\<close> on a store, in the same way.
\<close>

fun rangeSlog_heap ::
  "(nat \<Rightarrow> 'a \<Rightarrow> slog_Attr result) \<Rightarrow> nat \<Rightarrow> 'a list \<Rightarrow> slog_Attr list \<Rightarrow> slog_Attr list result" where
  "rangeSlog_heap arm i [] attrs = Ok attrs"
| "rangeSlog_heap arm i (v # values) attrs =
     bindR (arm i v) (\<lambda>a. rangeSlog_heap arm (i + 1) values (attrs @ [a]))"

definition sliceToSlog_heap ::
  "(nat \<Rightarrow> 'a \<Rightarrow> slog_Attr result) \<Rightarrow> string \<Rightarrow> 'a list \<Rightarrow> slog_Attr result" where
  "sliceToSlog_heap arm key slc =
     (if length slc = 0 then Ok (slog_Group key [])
      else bindR (rangeSlog_heap arm 0 slc [])
             (\<lambda>attrs. Ok (slog_Attr key (slog_GroupValue attrs))))"

fun LogValue_heap :: "nat \<Rightarrow> env \<Rightarrow> heap \<Rightarrow> addr option \<Rightarrow> slog_Value result"
  and errorToSlog_heap :: "nat \<Rightarrow> env \<Rightarrow> heap \<Rightarrow> string \<Rightarrow> ref \<Rightarrow> slog_Attr result" where
  "LogValue_heap 0 E h p = Timeout"
| "LogValue_heap (Suc fuel) E h None = Ok (slog_GroupValue [slog_String messageKey nilValue])"
| "LogValue_heap (Suc fuel) E h (Some a) =
     (let receiver = aggs h a;
          values = [slog_String messageKey (cmpOr (nodeMessage receiver) nilValue)]
      in
      bindR (if length (nodeTags receiver) > 0
             then bindR (liftO (sliceToSlog (slogScalar (\<lambda>key v. slog_String key (TrimSpace E v)))
                                  tagsKey (nodeTags receiver)))
                    (\<lambda>a. Ok (values @ [a]))
             else Ok values)
       (\<lambda>values.
      bindR (if length (nodeAttrs receiver) > 0
             then bindR (liftO (sliceToSlog (\<lambda>i a. Attr_asSlog E (Some a)) attrsKey (nodeAttrs receiver)))
                    (\<lambda>a. Ok (values @ [a]))
             else Ok values)
       (\<lambda>values.
      bindR (if length (nodeErrors receiver) > 0
             then let target = normalizeErrors_heap E h 0 (nodeErrors receiver) in
                  bindR (sliceToSlog_heap (\<lambda>i err. errorToSlog_heap fuel E h (Itoa (int i)) err)
                           errorsKey target)
                    (\<lambda>a. Ok (values @ [a]))
             else Ok values)
       (\<lambda>values.
      bindR (if length (nodeStack receiver) > 0
             then bindR (liftO (sliceToSlog (slogScalar (\<lambda>key v. slog_String key (TrimSpace E v)))
                                  stackKey (Split_newLine (nodeStack receiver))))
                    (\<lambda>a. Ok (values @ [a]))
             else Ok values)
       (\<lambda>values. Ok (slog_GroupValue values))))))"
| "errorToSlog_heap 0 E h key err = Timeout"
| "errorToSlog_heap (Suc fuel) E h key err =
     (if err = NilRef then Ok (slog_Group key [slog_String messageKey nilValue])
      else case errors_As_heap fuel h err of
             Timeout \<Rightarrow> Timeout
           | Panic \<Rightarrow> Panic
           | Ok (Some p) \<Rightarrow> bindR (LogValue_heap fuel E h p) (\<lambda>v. Ok (slog_Attr key v))
           | Ok None \<Rightarrow>
               let errStr = TrimSpace E (plainError_heap h err)
               in Ok (slog_Group key [slog_String messageKey (cmpOr errStr nilValue)]))"

text \<open>
  \<open>selfReferential\<close> is the store after \<^verbatim>\<open>a := New("a"); a.WithErrors(a)\<close>: the node at
  address 0 holds itself as its only cause. \<open>chainHeap\<close> holds an aggregate whose cause
  is a chain of multi-wraps \<open>3 \<rightarrow> 2 \<rightarrow> 1 \<rightarrow> 0\<close> ending in a leaf; \<open>loopHeap\<close> holds a
  multi-wrap whose two causes are the wrap itself.
\<close>

definition selfReferential :: heap where
  "selfReferential =
     \<lparr> aggs = (\<lambda>a. \<lparr> nodeMessage = ''a'', nodeAttrs = [], nodeErrors = [AggRef (Some 0)],
                     nodeTags = [], nodeStack = [], nodeJoined = False \<rparr>),
       objs = (\<lambda>a. StdObj []) \<rparr>"

definition chainHeap :: heap where
  "chainHeap =
     \<lparr> aggs = (\<lambda>a. \<lparr> nodeMessage = ''outer'', nodeAttrs = [Int_attr ''code'' 7],
                     nodeErrors = (if a = 0 then [ObjRef 3] else []),
                     nodeTags = [''t''], nodeStack = [], nodeJoined = False \<rparr>),
       objs = (\<lambda>a. if a = 0 then StdObj ''leaf'' else WrapsObj ''w'' [ObjRef (a - 1), NilRef]) \<rparr>"
definition loopHeap :: heap where
  "loopHeap =
     \<lparr> aggs = (\<lambda>a. \<lparr> nodeMessage = ''n'', nodeAttrs = [], nodeErrors = [],
                     nodeTags = [], nodeStack = [], nodeJoined = False \<rparr>),
       objs = (\<lambda>a. WrapsObj ''loop'' [ObjRef a, ObjRef a]) \<rparr>"

text \<open>
  A store is acyclic when a rank on the references decreases along every edge: from a
  node to its \<^verbatim>\<open>Errors\<close> and from an object to what \<^verbatim>\<open>Unwrap\<close> returns.
\<close>

fun children :: "obj \<Rightarrow> ref list" where
  "children (StdObj m) = []"
| "children (WrapObj m cause) = [cause]"
| "children (WrapsObj m causes) = causes"

definition ranked :: "heap \<Rightarrow> (ref \<Rightarrow> nat) \<Rightarrow> bool" where
  "ranked h rk \<longleftrightarrow>
     (\<forall>a. \<forall>c \<in> set (nodeErrors (aggs h a)). rk c < rk (AggRef (Some a))) \<and>
     (\<forall>a. \<forall>c \<in> set (children (objs h a)). rk c < rk (ObjRef a))"

fun chainRank :: "ref \<Rightarrow> nat" where
  "chainRank NilRef = 0"
| "chainRank (ObjRef a) = a"
| "chainRank (AggRef None) = 0"
| "chainRank (AggRef (Some a)) = (if a = 0 then 4 else 0)"

section \<open>Properties of Join and JoinIf\<close>

lemma count_loop_acc:
  "fold (\<lambda>err count. if err \<noteq> NilError then count + 1 else count) errs n
     = n + length (filter (\<lambda>e. e \<noteq> NilError) errs)"
  by (induction errs arbitrary: n) auto

lemma count_loop_filter: "count_loop errs = length (filter (\<lambda>e. e \<noteq> NilError) errs)"
  by (simp add: count_loop_def count_loop_acc)

lemma append_loop_acc:
  "fold (\<lambda>err acc. if err \<noteq> NilError then append_Errors err acc else acc) errs
        (StructuredError m a es t s j)
     = StructuredError m a (es @ filter (\<lambda>e. e \<noteq> NilError) errs) t s j"
  by (induction errs arbitrary: es) (auto simp: append_Errors_def)

lemma Join_filter:
  "Join errs =
     (if filter (\<lambda>e. e \<noteq> NilError) errs = [] then NilError
      else Pointer (Some (StructuredError [] [] (filter (\<lambda>e. e \<noteq> NilError) errs) [] [] True)))"
  by (simp add: Join_def count_loop_filter append_loop_acc Let_def)

text \<open>
  Claim C1. For an argument list with exactly \<open>k\<close> non-nil entries, \<open>Join\<close> returns nil
  when \<open>k = 0\<close>, and otherwise a non-nil pointer to a fresh aggregate whose \<open>joined\<close> flag
  is set, whose message is empty and whose \<open>Errors\<close> are exactly the \<open>k\<close> non-nil entries
  in their original order (all other fields empty).
\<close>

theorem Join_keeps_non_nil:
  assumes "k = length (filter (\<lambda>e. e \<noteq> NilError) errs)"
  shows "(k = 0 \<longrightarrow> Join errs = NilError) \<and>
         (0 < k \<longrightarrow>
            (\<exists>agg. Join errs = Pointer (Some agg) \<and> joined agg \<and> Message agg = [] \<and>
                   Errors agg = filter (\<lambda>e. e \<noteq> NilError) errs \<and> length (Errors agg) = k \<and>
                   Attrs agg = [] \<and> Tags agg = [] \<and> Stack agg = []))"
  using assms by (auto simp: Join_filter)

theorem Join_keeps_non_nil_witness:
  "Join [NilError, StdError ''a'', NilError, Pointer None] =
     Pointer (Some (StructuredError [] [] [StdError ''a'', Pointer None] [] [] True))
   \<and> Join [NilError, NilError] = NilError"
proof -
  have a: "(2::nat) = length (filter (\<lambda>e. e \<noteq> NilError) [NilError, StdError ''a'', NilError, Pointer None])"
    by simp
  have b: "(0::nat) = length (filter (\<lambda>e. e \<noteq> NilError) [NilError, NilError])"
    by simp
  from Join_keeps_non_nil [OF a] Join_keeps_non_nil [OF b] show ?thesis
    by (auto simp: StructuredError.expand)
qed

text \<open>
  Claim C2. \<open>JoinIf\<close> returns nil when the argument list is empty or its first element is
  nil, and otherwise exactly \<open>Join\<close> of the whole list, first element included. Whether
  it proceeds is decided by position zero alone: with a first element \<open>e\<close>, the result is
  nil if and only if \<open>e\<close> is nil, whatever follows.
\<close>

theorem JoinIf_positional:
  "JoinIf [] = NilError \<and>
   JoinIf (NilError # rest) = NilError \<and>
   (e \<noteq> NilError \<longrightarrow> JoinIf (e # rest) = Join (e # rest)) \<and>
   (JoinIf (e # rest) = NilError \<longleftrightarrow> e = NilError)"
  by (auto simp: JoinIf_def Join_filter)

theorem JoinIf_positional_witness:
  "JoinIf [StdError ''e1'', NilError, StdError ''e3''] =
     Pointer (Some (StructuredError [] [] [StdError ''e1'', StdError ''e3''] [] [] True))
   \<and> JoinIf [NilError, StdError ''e2'', StdError ''e3''] = NilError"
  using JoinIf_positional [where e = "StdError ''e1''" and rest = "[NilError, StdError ''e3'']"]
        JoinIf_positional [where e = NilError and rest = "[StdError ''e2'', StdError ''e3'']"]
  by (simp add: Join_filter)

section \<open>The builder only grows\<close>

lemma concat_replicate_snoc: "concat (replicate n xs) @ xs = xs @ concat (replicate n xs)"
  by (induction n) auto

lemma tabToString_append: "tabToString sb depth = sb @ concat (replicate depth tab)"
proof (induction depth)
  case 0
  then show ?case by (simp add: tabToString_def)
next
  case (Suc depth)
  have "tabToString sb (Suc depth) = tabToString sb depth @ tab"
    by (simp add: tabToString_def)
  with Suc show ?case by (simp add: concat_replicate_snoc)
qed

lemma rangeValues_append:
  assumes "\<And>sb v. v \<in> set values \<Longrightarrow> write sb depth v = map_option ((@) sb) (write [] depth v)"
  shows "rangeValues write sb depth index values
           = map_option ((@) sb) (rangeValues write [] depth index values)"
  using assms
proof (induction "values" arbitrary: sb index)
  case Nil
  then show ?case by simp
next
  case (Cons v "values")
  have w: "write s depth v = map_option ((@) s) (write [] depth v)" for s
    by (rule Cons.prems) simp
  have r: "rangeValues write s depth i values = map_option ((@) s) (rangeValues write [] depth i values)" for s i
    by (rule Cons.IH, rule Cons.prems) simp
  define pre where "pre = tabToString (if index > 0 then comma @ newLine else []) depth"
  have pre: "tabToString (if index > 0 then sb @ comma @ newLine else sb) depth = sb @ pre"
    by (simp add: pre_def tabToString_append)
  have pre0: "tabToString (if index > 0 then [] @ comma @ newLine else []) depth = pre"
    by (simp add: pre_def)
  show ?case
  proof (cases "write [] depth v")
    case None
    then show ?thesis
      by (simp add: Let_def pre pre0 w [of "sb @ pre"] w [of pre])
  next
    case (Some out)
    show ?thesis
    proof (cases "rangeValues write [] depth (index + 1) values")
      case None
      with Some show ?thesis
        by (simp add: Let_def pre pre0 w [of "sb @ pre"] w [of pre]
              r [of "sb @ pre @ out"] r [of "pre @ out"])
    next
      case (Some out2)
      with \<open>write [] depth v = Some out\<close> show ?thesis
        by (simp add: Let_def pre pre0 w [of "sb @ pre"] w [of pre]
              r [of "sb @ pre @ out"] r [of "pre @ out"])
    qed
  qed
qed

lemma valuesToString_append:
  assumes "\<And>sb v. v \<in> set slc \<Longrightarrow> write sb (depth + 1) v = map_option ((@) sb) (write [] (depth + 1) v)"
  shows "valuesToString write sb depth key slc opener closer
           = map_option ((@) sb) (valuesToString write [] depth key slc opener closer)"
proof -
  have a: "write sb (Suc depth) v = map_option ((@) sb) (write [] (Suc depth) v)"
    if "v \<in> set slc" for sb v
    using assms [OF that] unfolding Suc_eq_plus1 .
  have r: "rangeValues write s (Suc depth) 0 slc = map_option ((@) s) (rangeValues write [] (Suc depth) 0 slc)" for s
    by (rule rangeValues_append, rule a)
  define hd where "hd = parenthesisOpen @ key @ equals @ opener"
  show ?thesis
  proof (cases "rangeValues write [] (Suc depth) 0 slc")
    case None
    then show ?thesis
      unfolding valuesToString_def Let_def
      by (simp add: hd_def [symmetric] r [of "sb @ hd @ newLine"] r [of "hd @ newLine"])
  next
    case (Some out)
    then show ?thesis
      unfolding valuesToString_def Let_def
      by (simp add: hd_def [symmetric] tabToString_append r [of "sb @ hd @ newLine"] r [of "hd @ newLine"])
  qed
qed

lemma sliceToString_append:
  assumes "\<And>sb v. v \<in> set slc \<Longrightarrow> write sb (depth + 1) v = map_option ((@) sb) (write [] (depth + 1) v)"
  shows "sliceToString write sb depth key slc = map_option ((@) sb) (sliceToString write [] depth key slc)"
  unfolding sliceToString_def by (rule valuesToString_append, rule assms)

lemma objectToString_append:
  assumes "\<And>sb v. v \<in> set slc \<Longrightarrow> write sb (depth + 1) v = map_option ((@) sb) (write [] (depth + 1) v)"
  shows "objectToString write sb depth key slc = map_option ((@) sb) (objectToString write [] depth key slc)"
  unfolding objectToString_def by (rule valuesToString_append, rule assms)

lemma sliceToString_scalar_append:
  "sliceToString (writeScalar f) sb depth key slc
     = map_option ((@) sb) (sliceToString (writeScalar f) [] depth key slc)"
  by (rule sliceToString_append) (simp add: writeScalar_def)

lemma valueToString_append: "valueToString sb key v = sb @ valueToString [] key v"
  by (simp add: valueToString_def)

lemma Attr_asString_append:
  "Attr_asString E sb depth p = map_option ((@) sb) (Attr_asString E [] depth p)"
proof (induction E sb depth p rule: Attr_asString.induct)
  case (1 E sb depth)
  then show ?case by (simp add: valueToString_def)
next
  case (2 E sb depth receiver)
  show ?case
  proof (cases "Type receiver")
    case ObjectType
    show ?thesis
    proof (cases "as_Attrs (Value receiver)")
      case None
      with ObjectType show ?thesis by (simp add: Attr_asString.simps(2))
    next
      case (Some x)
      have "objectToString (\<lambda>sb depth a. Attr_asString E sb depth (Some a)) sb depth (Key receiver) x
          = map_option ((@) sb) (objectToString (\<lambda>sb depth a. Attr_asString E sb depth (Some a)) [] depth (Key receiver) x)"
        by (rule objectToString_append) (rule 2 [OF ObjectType Some])
      with ObjectType Some show ?thesis by (simp add: Attr_asString.simps(2))
    qed
  qed (simp_all add: Attr_asString.simps(2) valueToString_append [of sb]
           sliceToString_scalar_append [of _ sb] split: Option.bind_split)
qed


lemma size_induct_error [case_names error nil aggregate]:
  assumes err: "\<And>err. (\<And>p. errors_As err = Some p \<Longrightarrow> Q p) \<Longrightarrow> P err"
    and nil: "Q None"
    and agg: "\<And>r. (\<And>x. x \<in> set (normalizeErrors E 0 (Errors r)) \<Longrightarrow> P x) \<Longrightarrow> Q (Some r)"
  shows "P e" and "Q q"
proof -
  have both: "(\<forall>e. size e = n \<longrightarrow> P e) \<and> (\<forall>q. size_option size q = n \<longrightarrow> Q q)" for n
  proof (induction n rule: less_induct)
    case (less n)
    have "P e" if "size e = n" for e
    proof (rule err)
      fix p assume "errors_As e = Some p"
      then have "size_option size p < n" using errors_As_size(1) that by blast
      with less show "Q p" by blast
    qed
    moreover have "Q q" if "size_option size q = n" for q
    proof (cases q)
      case None
      then show ?thesis by (simp add: nil)
    next
      case (Some r)
      show ?thesis unfolding Some
      proof (rule agg)
        fix x assume "x \<in> set (normalizeErrors E 0 (Errors r))"
        then have "size x \<le> size_list size (Errors r)" by (rule normalizeErrors_size)
        also have "\<dots> < size_option size (Some r)" by (cases r) simp
        finally have "size x < n" using that Some by simp
        with less show "P x" by blast
      qed
    qed
    ultimately show ?case by blast
  qed
  from both show "P e" by blast
  from both show "Q q" by blast
qed

lemma map_option_append: "map_option ((@) (a @ b)) x = map_option ((@) a) (map_option ((@) b) x)"
  by (cases x) auto

lemma asString_sections_aux:
  assumes "\<And>x sb d. x \<in> set (normalizeErrors E 0 (Errors r))
             \<Longrightarrow> errorToString E sb d x = map_option ((@) sb) (errorToString E [] d x)"
  shows "asString E sb depth (Some r) =
           do { t \<leftarrow> tagsSection E r;
                a \<leftarrow> attrsSection E depth r;
                e \<leftarrow> errorsSection E depth r;
                Some (sb @ messageSection r @ t @ a @ e @ stackSection r) }"
proof -
  define M where "M = messageSection r"
  have m: "valueToString sb messageKey (cmpOr (Message r) nilValue) = sb @ M"
    by (simp add: M_def messageSection_def valueToString_def)
  have T: "(if length (Tags r) > 0
            then sliceToString (writeScalar (TrimSpace E)) (s @ comma @ newLine) 0 tagsKey (Tags r)
            else Some s) = map_option ((@) s) (tagsSection E r)" for s
    using sliceToString_scalar_append [of "TrimSpace E" "s @ comma @ newLine" 0 tagsKey "Tags r"]
    by (simp add: tagsSection_def map_option_append)
  have A: "(if length (Attrs r) > 0
            then sliceToString (\<lambda>sb depth a. Attr_asString E sb depth (Some a))
                   (s @ comma @ newLine) depth attrsKey (Attrs r)
            else Some s) = map_option ((@) s) (attrsSection E depth r)" for s
    using sliceToString_append [of "Attrs r" "\<lambda>sb depth a. Attr_asString E sb depth (Some a)" depth
             "s @ comma @ newLine" attrsKey, OF Attr_asString_append]
    by (simp add: attrsSection_def map_option_append)
  have Er: "(if length (Errors r) > 0
            then sliceToString (errorToString E)
                   (tabToString (s @ comma @ newLine) depth) depth errorsKey
                   (normalizeErrors E 0 (Errors r))
            else Some s) = map_option ((@) s) (errorsSection E depth r)" for s
    using sliceToString_append [of "normalizeErrors E 0 (Errors r)"
             "\<lambda>sb depth err. errorToString E sb depth err" depth
             "tabToString (s @ comma @ newLine) depth" errorsKey, OF assms]
    by (simp add: errorsSection_def map_option_append tabToString_append Let_def)
  have S: "(if length (Stack r) > 0
            then valueToString (s @ comma @ newLine) stackKey (Stack r) @ newLine
            else s) = s @ stackSection r" for s
    by (simp add: stackSection_def valueToString_def)
  have "asString E sb depth (Some r) =
          map_option ((@) (sb @ M)) (tagsSection E r) \<bind>
            (\<lambda>s. map_option ((@) s) (attrsSection E depth r) \<bind>
              (\<lambda>s. map_option ((@) s) (errorsSection E depth r) \<bind>
                (\<lambda>s. Some (s @ stackSection r))))"
    unfolding asString.simps(2) Let_def m T A Er S ..
  then show ?thesis
    by (cases "tagsSection E r"; cases "attrsSection E depth r"; cases "errorsSection E depth r")
       (simp_all add: M_def)
qed

lemma asString_errorToString_append:
  "errorToString E sb depth err = map_option ((@) sb) (errorToString E [] depth err)"
  "asString E sb depth p = map_option ((@) sb) (asString E [] depth p)"
proof -
  have "(\<forall>sb depth. errorToString E sb depth err = map_option ((@) sb) (errorToString E [] depth err))"
    and "(\<forall>sb depth. asString E sb depth p = map_option ((@) sb) (asString E [] depth p))"
  proof (induction err and p rule: size_induct_error [where E = E])
    case (error err)
    show ?case
    proof (intro allI)
      fix sb depth
      show "errorToString E sb depth err = map_option ((@) sb) (errorToString E [] depth err)"
      proof (cases "errors_As err")
        case None
        then show ?thesis
          by (simp add: errorToString.simps [of E sb] errorToString.simps [of E "[]"]
                valueToString_def Let_def)
      next
        case (Some p)
        from error [OF Some]
        have "asString E sb depth p = map_option ((@) sb) (asString E [] depth p)"
          by blast
        with Some show ?thesis
          by (simp add: errorToString.simps [of E sb] errorToString.simps [of E "[]"]
                valueToString_def)
      qed
    qed
  next
    case nil
    then show ?case by (simp add: valueToString_def)
  next
    case (aggregate r)
    then have *: "errorToString E sb d x = map_option ((@) sb) (errorToString E [] d x)"
      if "x \<in> set (normalizeErrors E 0 (Errors r))" for x sb d
      using that by blast
    show ?case
    proof (intro allI)
      fix sb depth
      have eq: "asString E s depth (Some r) =
           do { t \<leftarrow> tagsSection E r;
                a \<leftarrow> attrsSection E depth r;
                e \<leftarrow> errorsSection E depth r;
                Some (s @ messageSection r @ t @ a @ e @ stackSection r) }" for s
        by (rule asString_sections_aux) (rule *)
      show "asString E sb depth (Some r) = map_option ((@) sb) (asString E [] depth (Some r))"
        by (cases "tagsSection E r"; cases "attrsSection E depth r"; cases "errorsSection E depth r")
           (simp_all add: eq)
    qed
  qed
  then show "errorToString E sb depth err = map_option ((@) sb) (errorToString E [] depth err)"
    and "asString E sb depth p = map_option ((@) sb) (asString E [] depth p)"
    by blast+
qed

lemma asString_sections:
  "asString E sb depth (Some r) =
           do { t \<leftarrow> tagsSection E r;
                a \<leftarrow> attrsSection E depth r;
                e \<leftarrow> errorsSection E depth r;
                Some (sb @ messageSection r @ t @ a @ e @ stackSection r) }"
  by (rule asString_sections_aux) (rule asString_errorToString_append)


section \<open>The structured-log attributes that are built\<close>

lemma rangeSlog_acc:
  "rangeSlog arm i values attrs = map_option ((@) attrs) (rangeSlog arm i values [])"
proof (induction "values" arbitrary: i attrs)
  case Nil
  then show ?case by simp
next
  case (Cons v "values")
  show ?case
  proof (cases "arm i v")
    case None
    then show ?thesis by simp
  next
    case (Some a)
    have "rangeSlog arm (i + 1) values (attrs @ [a]) = map_option ((@) (attrs @ [a])) (rangeSlog arm (i + 1) values [])"
      by (rule Cons.IH)
    moreover have "rangeSlog arm (i + 1) values [a] = map_option ((@) [a]) (rangeSlog arm (i + 1) values [])"
      by (rule Cons.IH)
    ultimately show ?thesis using Some
      by (cases "rangeSlog arm (i + 1) values []") auto
  qed
qed

lemma rangeSlog_length:
  "rangeSlog arm i values [] = Some out \<Longrightarrow> length out = length values"
proof (induction "values" arbitrary: i out)
  case Nil
  then show ?case by simp
next
  case (Cons v "values")
  from Cons.prems obtain a where a: "arm i v = Some a"
    by (cases "arm i v") auto
  with Cons.prems have "rangeSlog arm (i + 1) values [a] = Some out" by simp
  then obtain rest where "rangeSlog arm (i + 1) values [] = Some rest" and "out = [a] @ rest"
    by (subst (asm) rangeSlog_acc) auto
  with Cons.IH show ?case by auto
qed

lemma rangeSlog_all:
  "rangeSlog arm i values [] = Some out \<Longrightarrow>
     \<forall>k < length values. arm (i + k) (values ! k) = Some (out ! k)"
proof (induction "values" arbitrary: i out)
  case Nil
  then show ?case by simp
next
  case (Cons v "values")
  from Cons.prems obtain a where a: "arm i v = Some a"
    by (cases "arm i v") auto
  with Cons.prems have "rangeSlog arm (i + 1) values [a] = Some out" by simp
  then obtain rest where rest: "rangeSlog arm (i + 1) values [] = Some rest" and out: "out = a # rest"
    by (subst (asm) rangeSlog_acc) auto
  from Cons.IH [OF rest] have ih: "\<forall>k<length values. arm (i + 1 + k) (values ! k) = Some (rest ! k)" .
  show ?case
  proof (intro allI impI)
    fix k assume "k < length (v # values)"
    then show "arm (i + k) ((v # values) ! k) = Some (out ! k)"
      using a ih out by (cases k) auto
  qed
qed

lemma rangeSlog_total:
  assumes "\<And>i v. v \<in> set values \<Longrightarrow> arm i v \<noteq> None"
  shows "rangeSlog arm i values attrs \<noteq> None"
  using assms
proof (induction "values" arbitrary: i attrs)
  case Nil
  then show ?case by simp
next
  case (Cons v "values")
  then obtain a where "arm i v = Some a" by fastforce
  with Cons show ?case by simp
qed

lemma sliceToSlog_group:
  assumes "sliceToSlog arm key slc = Some a"
  shows "\<exists>out. rangeSlog arm 0 slc [] = Some out \<and>
           a = slog_Attr key (KindGroup (filter (\<lambda>x. \<not> isEmptyGroup (AttrValue x)) out))"
proof (cases "slc = []")
  case True
  with assms show ?thesis
    by (simp add: sliceToSlog_def slog_Group_def slog_GroupValue_def)
next
  case False
  with assms show ?thesis
    by (auto simp: sliceToSlog_def slog_GroupValue_def split: Option.bind_splits)
qed

lemma sliceToSlog_kept:
  assumes "sliceToSlog arm key slc = Some a"
    and "\<And>i v x. v \<in> set slc \<Longrightarrow> arm i v = Some x \<Longrightarrow> \<not> isEmptyGroup (AttrValue x)"
  shows "\<exists>out. a = slog_Attr key (KindGroup out) \<and> length out = length slc \<and>
           (\<forall>k < length slc. arm k (slc ! k) = Some (out ! k))"
proof -
  from sliceToSlog_group [OF assms(1)] obtain out where
    out: "rangeSlog arm 0 slc [] = Some out"
    and a: "a = slog_Attr key (KindGroup (filter (\<lambda>x. \<not> isEmptyGroup (AttrValue x)) out))"
    by blast
  from rangeSlog_all [OF out] have all: "\<forall>k < length slc. arm k (slc ! k) = Some (out ! k)" by simp
  from rangeSlog_length [OF out] have len: "length out = length slc" .
  have "\<not> isEmptyGroup (AttrValue x)" if "x \<in> set out" for x
  proof -
    from that obtain k where "k < length out" "x = out ! k" by (auto simp: in_set_conv_nth)
    with all len assms(2) [of "slc ! k" k x] show ?thesis by auto
  qed
  then have "filter (\<lambda>x. \<not> isEmptyGroup (AttrValue x)) out = out" by (simp add: filter_id_conv)
  with a all len show ?thesis by auto
qed

lemma sliceToSlog_strings:
  "\<exists>out. sliceToSlog (slogScalar (\<lambda>key v. slog_String key (f v))) key slc
      = Some (slog_Attr key (KindGroup out)) \<and> length out = length slc"
proof -
  have "rangeSlog (slogScalar (\<lambda>key v. slog_String key (f v))) 0 slc [] \<noteq> None"
    by (rule rangeSlog_total) (simp add: slogScalar_def)
  then obtain a where a: "sliceToSlog (slogScalar (\<lambda>key v. slog_String key (f v))) key slc = Some a"
    by (cases "slc = []") (auto simp: sliceToSlog_def)
  have "\<exists>out. a = slog_Attr key (KindGroup out) \<and> length out = length slc \<and>
           (\<forall>k < length slc. slogScalar (\<lambda>key v. slog_String key (f v)) k (slc ! k) = Some (out ! k))"
  proof (rule sliceToSlog_kept [OF a])
    fix i v x
    assume "slogScalar (\<lambda>key v. slog_String key (f v)) i v = Some x"
    then show "\<not> isEmptyGroup (AttrValue x)"
      by (auto simp: slogScalar_def slog_String_def)
  qed
  with a show ?thesis by auto
qed

lemma LogValue_not_empty:
  "LogValue E p = Some v \<Longrightarrow> \<exists>rest. v = KindGroup (slog_String messageKey (cmpOr (case p of None \<Rightarrow> [] | Some r \<Rightarrow> Message r) nilValue) # rest)"
proof (cases p)
  case None
  assume "LogValue E p = Some v"
  with None show ?thesis
    by (auto simp: slog_GroupValue_def slog_String_def cmpOr_def)
next
  case (Some r)
  assume "LogValue E p = Some v"
  with Some show ?thesis
    by (auto simp: LogValue.simps(2) Let_def slog_GroupValue_def slog_String_def
          split: Option.bind_splits if_splits)
qed

lemma errorToSlog_not_empty:
  assumes "errorToSlog E key err = Some x"
  shows "\<not> isEmptyGroup (AttrValue x)" and "AttrKey x = key"
proof -
  have "\<not> isEmptyGroup (AttrValue x) \<and> AttrKey x = key"
  proof (cases "err = NilError")
    case True
    with assms show ?thesis
      by (auto simp: errorToSlog.simps slog_Group_def slog_GroupValue_def slog_String_def)
  next
    case False
    show ?thesis
    proof (cases "errors_As err")
      case None
      with False assms show ?thesis
        by (auto simp: errorToSlog.simps slog_Group_def slog_GroupValue_def slog_String_def Let_def)
    next
      case (Some p)
      with False assms obtain v where v: "LogValue E p = Some v" and x: "x = slog_Attr key v"
        by (auto simp: errorToSlog.simps split: Option.bind_splits)
      from LogValue_not_empty [OF v] x show ?thesis by auto
    qed
  qed
  then show "\<not> isEmptyGroup (AttrValue x)" and "AttrKey x = key" by auto
qed

lemma normalizeErrors_not_empty: "errs \<noteq> [] \<Longrightarrow> normalizeErrors E depth errs \<noteq> []"
proof (induction E depth errs rule: normalizeErrors.induct)
  case (1 E depth)
  then show ?case by simp
next
  case (2 E depth err errs)
  show ?case
  proof (cases err)
    case (WrapErrors m causes)
    with 2 show ?thesis by (cases causes) auto
  qed (use 2 in auto)
qed


lemma LogValue_bind:
  "LogValue E (Some r) =
     do { t \<leftarrow> slogSection (Tags r \<noteq> [])
                 (sliceToSlog (slogScalar (\<lambda>key v. slog_String key (TrimSpace E v))) tagsKey (Tags r));
          a \<leftarrow> slogSection (Attrs r \<noteq> [])
                 (sliceToSlog (\<lambda>i a. Attr_asSlog E (Some a)) attrsKey (Attrs r));
          e \<leftarrow> slogSection (Errors r \<noteq> [])
                 (sliceToSlog (\<lambda>i err. errorToSlog E (Itoa (int i)) err) errorsKey
                    (normalizeErrors E 0 (Errors r)));
          s \<leftarrow> slogSection (Stack r \<noteq> [])
                 (sliceToSlog (slogScalar (\<lambda>key v. slog_String key (TrimSpace E v))) stackKey
                    (Split_newLine (Stack r)));
          Some (slog_GroupValue
                  ([slog_String messageKey (cmpOr (Message r) nilValue)] @ t @ a @ e @ s)) }"
  unfolding LogValue.simps(2) Let_def slogSection_def
  by (cases "sliceToSlog (slogScalar (\<lambda>key v. slog_String key (TrimSpace E v))) tagsKey (Tags r)";
      cases "sliceToSlog (\<lambda>i a. Attr_asSlog E (Some a)) attrsKey (Attrs r)";
      cases "sliceToSlog (\<lambda>i err. errorToSlog E (Itoa (int i)) err) errorsKey
                    (normalizeErrors E 0 (Errors r))";
      cases "sliceToSlog (slogScalar (\<lambda>key v. slog_String key (TrimSpace E v))) stackKey
                    (Split_newLine (Stack r))")
     simp_all

lemma splitByte_not_empty: "splitByte c s \<noteq> []"
  by (induction s) (auto split: list.splits)


section \<open>Sentinel rendering\<close>

lemma Error_prefix:
  assumes "Error E (Some r) = Some out"
  shows "prefix (messageSection r) out"
proof -
  from assms obtain t a e where "out = [] @ messageSection r @ t @ a @ e @ stackSection r"
    unfolding Error_def asString_sections by (auto split: Option.bind_splits)
  then show ?thesis by simp
qed

lemma messageSection_text:
  "messageSection r = ''(message='' @ (if Message r = [] then ''!NILVALUE'' else Message r) @ '')''"
  by (simp add: messageSection_def valueToString_def cmpOr_def text_constants)

lemma Error_New: "Error E (Some (New m)) = Some (messageSection (New m))"
  by (simp add: Error_def asString_sections tagsSection_def attrsSection_def errorsSection_def
        stackSection_def New_def)

text \<open>
  Claim C3. In the text and the structured-log rendering, a nil receiver renders as the
  sentinel message; whenever an aggregate is rendered, its message part holds the
  message, or the sentinel literal when the message is empty, never an empty string;
  and for a non-empty \<open>m\<close> the text of \<open>New m\<close> is \<open>(message=m)\<close>, which contains \<open>m\<close>
  verbatim, while the empty message gives the sentinel.
\<close>

theorem sentinel_for_empty_message:
  "Error E None = Some ''(message=!NILVALUE)'' \<and>
   LogValue E None = Some (KindGroup [slog_Attr ''message'' (KindString ''!NILVALUE'')]) \<and>
   (\<forall>out. Error E (Some r) = Some out \<longrightarrow>
      prefix (''(message='' @ (if Message r = [] then ''!NILVALUE'' else Message r) @ '')'') out) \<and>
   (\<forall>v. LogValue E (Some r) = Some v \<longrightarrow>
      (\<exists>rest. v = KindGroup (slog_Attr ''message''
                    (KindString (if Message r = [] then ''!NILVALUE'' else Message r)) # rest))) \<and>
   (m \<noteq> [] \<longrightarrow> Error E (Some (New m)) = Some (''(message='' @ m @ '')'') \<and>
      (\<exists>out. Error E (Some (New m)) = Some out \<and> sublist m out)) \<and>
   Error E (Some (New [])) = Some ''(message=!NILVALUE)''"
proof (intro conjI allI impI)
  show "Error E None = Some ''(message=!NILVALUE)''"
    by (simp add: Error_def valueToString_def text_constants)
  show "LogValue E None = Some (KindGroup [slog_Attr ''message'' (KindString ''!NILVALUE'')])"
    by (simp add: slog_GroupValue_def slog_String_def text_constants)
next
  fix out assume "Error E (Some r) = Some out"
  then show "prefix (''(message='' @ (if Message r = [] then ''!NILVALUE'' else Message r) @ '')'') out"
    using Error_prefix messageSection_text by metis
next
  fix v assume "LogValue E (Some r) = Some v"
  from LogValue_not_empty [OF this]
  show "\<exists>rest. v = KindGroup (slog_Attr ''message''
                    (KindString (if Message r = [] then ''!NILVALUE'' else Message r)) # rest)"
    by (auto simp: slog_String_def cmpOr_def text_constants)
next
  assume m: "m \<noteq> []"
  then show eq: "Error E (Some (New m)) = Some (''(message='' @ m @ '')'')"
    by (simp add: Error_New messageSection_text) (simp add: New_def)
  have "sublist m (''(message='' @ m @ '')'')"
    by (rule sublist_appendI)
  with eq show "\<exists>out. Error E (Some (New m)) = Some out \<and> sublist m out" by blast
next
  show "Error E (Some (New [])) = Some ''(message=!NILVALUE)''"
    by (simp add: Error_New messageSection_text) (simp add: New_def)
qed


theorem sentinel_for_empty_message_witness:
  "(\<exists>out. Error exampleEnv (Some (WithTags [''t''] (New []))) = Some out \<and>
          prefix ''(message=!NILVALUE)'' out) \<and>
   (\<exists>rest. LogValue exampleEnv (Some (WithTags [''t''] (New []))) =
          Some (KindGroup (slog_Attr ''message'' (KindString ''!NILVALUE'') # rest))) \<and>
   Error exampleEnv (Some (New ''boom'')) = Some ''(message=boom)'' \<and>
   sublist ''boom'' ''(message=boom)''"
proof -
  have e: "Error exampleEnv (Some (WithTags [''t''] (New []))) \<noteq> None"
    by code_simp
  have l: "LogValue exampleEnv (Some (WithTags [''t''] (New []))) \<noteq> None"
    by code_simp
  have m: "Message (WithTags [''t''] (New [])) = []"
    by (simp add: WithTags_def New_def)
  from sentinel_for_empty_message [of exampleEnv "WithTags [''t''] (New [])" "''boom''"] e l m
  show ?thesis by auto
qed


text \<open>
  Claim C8. For every receiver, nil included, \<open>String\<close> returns what \<open>Error\<close> returns, and
  that is the text rendering written into a fresh builder at depth zero.
\<close>

theorem String_is_Error:
  "String E receiver = Error E receiver \<and> Error E receiver = asString E [] 0 receiver"
  by (simp add: String_def Error_def)


text \<open>
  Claim C9. For a nil attribute receiver the text rendering is the pair
  \<open>(!NILVALUE=!NILVALUE)\<close> and the structured-log rendering is the string attribute with
  the sentinel as key and as value; neither panics.
\<close>

theorem nil_Attr_sentinel:
  "Attr_asString E sb depth None = Some (sb @ ''(!NILVALUE=!NILVALUE)'') \<and>
   Attr_String E None = Some ''(!NILVALUE=!NILVALUE)'' \<and>
   Attr_asSlog E None = Some (slog_Attr ''!NILVALUE'' (KindString ''!NILVALUE'')) \<and>
   Attr_LogValue E None = Some (KindGroup [slog_Attr ''!NILVALUE'' (KindString ''!NILVALUE'')])"
  by (simp add: Attr_String_def Attr_LogValue_def valueToString_def slog_String_def
        slog_GroupValue_def text_constants)


section \<open>Rendering the entries of the normalized sequence\<close>

lemma errorToString_nil: "errorToString E sb depth NilError = Some (sb @ ''(message=!NILVALUE)'')"
  by (simp add: errorToString.simps valueToString_def text_constants)

lemma errors_As_not_nil: "errors_As err = Some p \<Longrightarrow> err \<noteq> NilError"
  by auto

text \<open>
  Claim C7. Each entry of the normalized sequence is rendered, none is dropped: a nil
  entry as the sentinel message; an entry that is or wraps a structured aggregate (the
  chain walk finds one) by the full encoding of that aggregate; any other entry as the
  single field \<open>message\<close> holding its trimmed text, or the sentinel when the trimmed
  text is empty. The loop of the text encoder writes a nil entry and goes on with the
  rest; the structured-log group has one attribute per entry, in order.
\<close>

theorem entries_of_normalized_errors:
  "errorToString E sb depth NilError = Some (sb @ ''(message=!NILVALUE)'') \<and>
   errorToSlog E key NilError =
     Some (slog_Attr key (KindGroup [slog_Attr ''message'' (KindString ''!NILVALUE'')])) \<and>
   (errors_As err = Some p \<longrightarrow>
      errorToString E sb depth err = asString E sb depth p \<and>
      errorToSlog E key err = map_option (slog_Attr key) (LogValue E p)) \<and>
   (err \<noteq> NilError \<and> errors_As err = None \<longrightarrow>
      errorToString E sb depth err =
        Some (sb @ ''(message='' @ cmpOr (TrimSpace E (plainError err)) ''!NILVALUE'' @ '')'') \<and>
      errorToSlog E key err =
        Some (slog_Attr key (KindGroup
                [slog_Attr ''message'' (KindString (cmpOr (TrimSpace E (plainError err)) ''!NILVALUE''))]))) \<and>
   rangeValues (\<lambda>sb depth err. errorToString E sb depth err) sb depth index (NilError # rest) =
     rangeValues (\<lambda>sb depth err. errorToString E sb depth err)
       (tabToString (if index > 0 then sb @ comma @ newLine else sb) depth @ ''(message=!NILVALUE)'')
       depth (index + 1) rest \<and>
   (\<forall>a. sliceToSlog (\<lambda>i err. errorToSlog E (Itoa (int i)) err) errorsKey target = Some a \<longrightarrow>
      (\<exists>out. a = slog_Attr errorsKey (KindGroup out) \<and> length out = length target \<and>
         (\<forall>k < length target. errorToSlog E (Itoa (int k)) (target ! k) = Some (out ! k))))"
proof (intro conjI allI impI)
  show "errorToString E sb depth NilError = Some (sb @ ''(message=!NILVALUE)'')"
    by (rule errorToString_nil)
  show "errorToSlog E key NilError =
     Some (slog_Attr key (KindGroup [slog_Attr ''message'' (KindString ''!NILVALUE'')]))"
    by (simp add: errorToSlog.simps slog_Group_def slog_GroupValue_def slog_String_def text_constants)
next
  assume p: "errors_As err = Some p"
  then have "err \<noteq> NilError" by auto
  with p show "errorToString E sb depth err = asString E sb depth p"
    by (simp add: errorToString.simps)
  from p \<open>err \<noteq> NilError\<close> show "errorToSlog E key err = map_option (slog_Attr key) (LogValue E p)"
    by (cases "LogValue E p") (simp_all add: errorToSlog.simps)
next
  assume n: "err \<noteq> NilError \<and> errors_As err = None"
  then show "errorToString E sb depth err =
        Some (sb @ ''(message='' @ cmpOr (TrimSpace E (plainError err)) ''!NILVALUE'' @ '')'')"
    by (simp add: errorToString.simps valueToString_def text_constants Let_def)
  from n show "errorToSlog E key err =
        Some (slog_Attr key (KindGroup
                [slog_Attr ''message'' (KindString (cmpOr (TrimSpace E (plainError err)) ''!NILVALUE''))]))"
    by (simp add: errorToSlog.simps slog_Group_def slog_GroupValue_def slog_String_def
          text_constants Let_def)
next
  show "rangeValues (\<lambda>sb depth err. errorToString E sb depth err) sb depth index (NilError # rest) =
     rangeValues (\<lambda>sb depth err. errorToString E sb depth err)
       (tabToString (if index > 0 then sb @ comma @ newLine else sb) depth @ ''(message=!NILVALUE)'')
       depth (index + 1) rest"
    by (simp add: Let_def errorToString_nil)
next
  fix a
  assume a: "sliceToSlog (\<lambda>i err. errorToSlog E (Itoa (int i)) err) errorsKey target = Some a"
  show "\<exists>out. a = slog_Attr errorsKey (KindGroup out) \<and> length out = length target \<and>
         (\<forall>k < length target. errorToSlog E (Itoa (int k)) (target ! k) = Some (out ! k))"
  proof (rule sliceToSlog_kept [OF a])
    fix i v x
    assume "errorToSlog E (Itoa (int i)) v = Some x"
    then show "\<not> isEmptyGroup (AttrValue x)" by (rule errorToSlog_not_empty)
  qed
qed


theorem entries_of_normalized_errors_witness:
  "errorToString exampleEnv [] 1 (StdError ''  boom  '') = Some ''(message=boom)'' \<and>
   errorToString exampleEnv [] 1 (StdError ''   '') = Some ''(message=!NILVALUE)'' \<and>
   errorToString exampleEnv [] 1 (WrapErrors ''a b'' [NilError, WrapError ''w'' (Pointer (Some (New ''inner'')))])
     = asString exampleEnv [] 1 (Some (New ''inner'')) \<and>
   (\<exists>out. sliceToSlog (\<lambda>i err. errorToSlog exampleEnv (Itoa (int i)) err) errorsKey
             [NilError, StdError '' x '', Pointer None] = Some (slog_Attr errorsKey (KindGroup out)) \<and>
          length out = 3)"
proof -
  have t: "TrimSpace exampleEnv ''  boom  '' = ''boom''" "TrimSpace exampleEnv ''   '' = []"
    by code_simp+
  obtain a where s: "sliceToSlog (\<lambda>i err. errorToSlog exampleEnv (Itoa (int i)) err) errorsKey
             [NilError, StdError '' x '', Pointer None] = Some a"
  proof -
    have "sliceToSlog (\<lambda>i err. errorToSlog exampleEnv (Itoa (int i)) err) errorsKey
             [NilError, StdError '' x '', Pointer None] \<noteq> None"
      by code_simp
    then show ?thesis using that by blast
  qed
  have n: "StdError ''  boom  '' \<noteq> NilError \<and> errors_As (StdError ''  boom  '') = None"
    "StdError ''   '' \<noteq> NilError \<and> errors_As (StdError ''   '') = None"
    by simp_all
  have w: "errors_As (WrapErrors ''a b'' [NilError, WrapError ''w'' (Pointer (Some (New ''inner'')))])
             = Some (Some (New ''inner''))"
    by simp
  note T = entries_of_normalized_errors [where E = exampleEnv and sb = "[]" and depth = 1
         and key = "''0''" and index = 0 and rest = "[]"]
  note c3 = T [THEN conjunct2, THEN conjunct2, THEN conjunct1, rule_format]
  note c4 = T [THEN conjunct2, THEN conjunct2, THEN conjunct2, THEN conjunct1, rule_format]
  note c6 = T [THEN conjunct2, THEN conjunct2, THEN conjunct2, THEN conjunct2, THEN conjunct2,
               rule_format]
  from c4 [OF n(1)] t have 1: "errorToString exampleEnv [] 1 (StdError ''  boom  '') = Some ''(message=boom)''"
    by (simp add: cmpOr_def)
  from c4 [OF n(2)] t have 2: "errorToString exampleEnv [] 1 (StdError ''   '') = Some ''(message=!NILVALUE)''"
    by (simp add: cmpOr_def)
  from c3 [OF w] have 3: "errorToString exampleEnv [] 1
        (WrapErrors ''a b'' [NilError, WrapError ''w'' (Pointer (Some (New ''inner'')))])
     = asString exampleEnv [] 1 (Some (New ''inner''))"
    by simp
  from c6 [OF s] s have 4: "\<exists>out. sliceToSlog (\<lambda>i err. errorToSlog exampleEnv (Itoa (int i)) err) errorsKey
             [NilError, StdError '' x '', Pointer None] = Some (slog_Attr errorsKey (KindGroup out)) \<and>
          length out = 3"
    by auto
  from 1 2 3 4 show ?thesis by blast
qed

section \<open>A single wrap around a structured aggregate\<close>

lemma normalizeErrors_append:
  "normalizeErrors E depth (xs @ ys) = normalizeErrors E depth xs @ normalizeErrors E depth ys"
  by (induction xs) simp_all

lemma normalizeErrors_over_depth:
  "int depth > maxDepthMarshal E \<Longrightarrow> normalizeErrors E depth errs = errs"
  by (induction errs) simp_all

lemma rangeValues_pointwise:
  assumes "\<And>sb. write sb depth x = write sb depth y"
  shows "rangeValues write sb depth index (pre @ [x] @ post)
           = rangeValues write sb depth index (pre @ [y] @ post)"
proof (induction pre arbitrary: sb index)
  case Nil
  then show ?case by (simp add: Let_def assms)
next
  case (Cons a pre)
  then show ?case by (simp add: Let_def cong: Option.bind_cong)
qed

lemma rangeSlog_pointwise:
  assumes "\<And>i. arm i x = arm i y"
  shows "rangeSlog arm i (pre @ [x] @ post) attrs = rangeSlog arm i (pre @ [y] @ post) attrs"
proof (induction pre arbitrary: i attrs)
  case Nil
  then show ?case by (simp add: assms)
next
  case (Cons a pre)
  then show ?case by (simp cong: Option.bind_cong)
qed

lemma errorToString_wrapper:
  "errorToString E sb depth (WrapError msg (Pointer p)) = errorToString E sb depth (Pointer p)"
  by (simp add: errorToString.simps)

lemma errorToSlog_wrapper:
  "errorToSlog E key (WrapError msg (Pointer p)) = errorToSlog E key (Pointer p)"
  by (simp add: errorToSlog.simps)

lemma render_target_wrapper:
  "sliceToString (\<lambda>sb depth err. errorToString E sb depth err) sb depth key
        (normalizeErrors E 0 (pre @ WrapError msg (Pointer p) # post))
     = sliceToString (\<lambda>sb depth err. errorToString E sb depth err) sb depth key
        (normalizeErrors E 0 (pre @ Pointer p # post))"
  "sliceToSlog (\<lambda>i err. errorToSlog E (Itoa (int i)) err) key
        (normalizeErrors E 0 (pre @ WrapError msg (Pointer p) # post))
     = sliceToSlog (\<lambda>i err. errorToSlog E (Itoa (int i)) err) key
        (normalizeErrors E 0 (pre @ Pointer p # post))"
proof -
  show "sliceToString (\<lambda>sb depth err. errorToString E sb depth err) sb depth key
        (normalizeErrors E 0 (pre @ WrapError msg (Pointer p) # post))
     = sliceToString (\<lambda>sb depth err. errorToString E sb depth err) sb depth key
        (normalizeErrors E 0 (pre @ Pointer p # post))"
  proof (cases "0 \<le> maxDepthMarshal E")
    case True
    then show ?thesis by (simp add: normalizeErrors_append)
  next
    case False
    then have id: "normalizeErrors E 0 errs = errs" for errs
      by (intro normalizeErrors_over_depth) simp
    show ?thesis
      unfolding id sliceToString_def valuesToString_def Let_def
      using rangeValues_pointwise [of "\<lambda>sb depth err. errorToString E sb depth err" "depth + 1"
               "WrapError msg (Pointer p)" "Pointer p" _ 0 pre post, OF errorToString_wrapper]
      by simp
  qed
  show "sliceToSlog (\<lambda>i err. errorToSlog E (Itoa (int i)) err) key
        (normalizeErrors E 0 (pre @ WrapError msg (Pointer p) # post))
     = sliceToSlog (\<lambda>i err. errorToSlog E (Itoa (int i)) err) key
        (normalizeErrors E 0 (pre @ Pointer p # post))"
  proof (cases "0 \<le> maxDepthMarshal E")
    case True
    then show ?thesis by (simp add: normalizeErrors_append)
  next
    case False
    then have id: "normalizeErrors E 0 errs = errs" for errs
      by (intro normalizeErrors_over_depth) simp
    show ?thesis
      unfolding id sliceToSlog_def
      using rangeSlog_pointwise [of "\<lambda>i err. errorToSlog E (Itoa (int i)) err"
               "WrapError msg (Pointer p)" "Pointer p" 0 pre post "[]", OF errorToSlog_wrapper]
      by simp
  qed
qed

text \<open>
  Claim C4. While the depth does not exceed the configured maximum, a candidate that
  exposes exactly one wrapped cause which is a structured aggregate is replaced in place
  by that aggregate; and the text and structured-log renderings of a node do not depend
  on the wrapper: they are the renderings of the node with the inner aggregate in the
  wrapper's place, so the wrapper's own text does not reach them.
\<close>

theorem single_wrap_replaced:
  "(int depth \<le> maxDepthMarshal E \<longrightarrow>
      normalizeErrors E depth (pre @ [WrapError msg (Pointer p)] @ post)
        = normalizeErrors E depth pre @ [Pointer p] @ normalizeErrors E depth post \<and>
      normalizeErrors E depth (pre @ [WrapErrors msg [Pointer p]] @ post)
        = normalizeErrors E depth pre @ [Pointer p] @ normalizeErrors E depth post) \<and>
   Error E (Some (StructuredError m as (pre @ [WrapError msg (Pointer p)] @ post) ts st j))
     = Error E (Some (StructuredError m as (pre @ [Pointer p] @ post) ts st j)) \<and>
   LogValue E (Some (StructuredError m as (pre @ [WrapError msg (Pointer p)] @ post) ts st j))
     = LogValue E (Some (StructuredError m as (pre @ [Pointer p] @ post) ts st j))"
proof (intro conjI impI)
  assume "int depth \<le> maxDepthMarshal E"
  then show "normalizeErrors E depth (pre @ [WrapError msg (Pointer p)] @ post)
        = normalizeErrors E depth pre @ [Pointer p] @ normalizeErrors E depth post"
    and "normalizeErrors E depth (pre @ [WrapErrors msg [Pointer p]] @ post)
        = normalizeErrors E depth pre @ [Pointer p] @ normalizeErrors E depth post"
    by (simp_all add: normalizeErrors_append)
next
  show "Error E (Some (StructuredError m as (pre @ [WrapError msg (Pointer p)] @ post) ts st j))
     = Error E (Some (StructuredError m as (pre @ [Pointer p] @ post) ts st j))"
    by (simp add: Error_def asString_sections messageSection_def tagsSection_def attrsSection_def
          errorsSection_def stackSection_def render_target_wrapper)
  show "LogValue E (Some (StructuredError m as (pre @ [WrapError msg (Pointer p)] @ post) ts st j))
     = LogValue E (Some (StructuredError m as (pre @ [Pointer p] @ post) ts st j))"
    by (simp add: LogValue_bind render_target_wrapper)
qed

theorem single_wrap_replaced_witness:
  "normalizeErrors exampleEnv 0
     [StdError ''a'', WrapError ''msg example (message=base error)'' (Pointer (Some (New ''base error'')))]
     = [StdError ''a'', Pointer (Some (New ''base error''))] \<and>
   Error exampleEnv (Some (WithErrors
       [WrapError ''msg example (message=base error)'' (Pointer (Some (New ''base error'')))]
       (New ''outer'')))
     = Some (''(message=outer),'' @ newLine @ ''(errors=['' @ newLine @ tab @
             ''(message=base error)'' @ newLine @ ''])'') \<and>
   \<not> sublist ''msg example'' (''(message=outer),'' @ newLine @ ''(errors=['' @ newLine @ tab @
             ''(message=base error)'' @ newLine @ ''])'')"
proof -
  have d: "int 0 \<le> maxDepthMarshal exampleEnv" by (simp add: exampleEnv_def)
  have n: "normalizeErrors exampleEnv 0 [StdError ''a''] = [StdError ''a'']"
    by code_simp
  have e: "Error exampleEnv (Some (StructuredError ''outer'' [] ([] @ [Pointer (Some (New ''base error''))] @ []) [] [] False))
     = Some (''(message=outer),'' @ newLine @ ''(errors=['' @ newLine @ tab @
             ''(message=base error)'' @ newLine @ ''])'')"
    by code_simp
  have s: "\<not> sublist ''msg example'' (''(message=outer),'' @ newLine @ ''(errors=['' @ newLine @ tab @
             ''(message=base error)'' @ newLine @ ''])'')"
    by code_simp
  from single_wrap_replaced [where E = exampleEnv and depth = 0 and pre = "[StdError ''a'']" and post = "[]"
         and msg = "''msg example (message=base error)''" and p = "Some (New ''base error'')"]
       single_wrap_replaced [where E = exampleEnv and depth = 0 and pre = "[]" and post = "[]"
         and msg = "''msg example (message=base error)''" and p = "Some (New ''base error'')"
         and m = "''outer''" and as = "[]" and ts = "[]" and st = "[]" and j = False]
       d n e s
  show ?thesis by (simp add: WithErrors_def New_def)
qed


section \<open>When attribute encoding panics\<close>

lemma assertion_succeeds:
  "as_Attrs v \<noteq> None \<longleftrightarrow> typeOf v = Some ObjectType"
  "as_bool v \<noteq> None \<longleftrightarrow> typeOf v = Some BoolType"
  "as_bools v \<noteq> None \<longleftrightarrow> typeOf v = Some BoolsType"
  "as_Time v \<noteq> None \<longleftrightarrow> typeOf v = Some TimeType"
  "as_Times v \<noteq> None \<longleftrightarrow> typeOf v = Some TimesType"
  "as_Duration v \<noteq> None \<longleftrightarrow> typeOf v = Some DurationType"
  "as_Durations v \<noteq> None \<longleftrightarrow> typeOf v = Some DurationsType"
  "as_int v \<noteq> None \<longleftrightarrow> typeOf v = Some IntType"
  "as_ints v \<noteq> None \<longleftrightarrow> typeOf v = Some IntsType"
  "as_int64 v \<noteq> None \<longleftrightarrow> typeOf v = Some Int64Type"
  "as_int64s v \<noteq> None \<longleftrightarrow> typeOf v = Some Int64sType"
  "as_uint64 v \<noteq> None \<longleftrightarrow> typeOf v = Some Uint64Type"
  "as_uint64s v \<noteq> None \<longleftrightarrow> typeOf v = Some Uint64sType"
  "as_float64 v \<noteq> None \<longleftrightarrow> typeOf v = Some Float64Type"
  "as_float64s v \<noteq> None \<longleftrightarrow> typeOf v = Some Float64sType"
  "as_string v \<noteq> None \<longleftrightarrow> typeOf v = Some StringType"
  "as_strings v \<noteq> None \<longleftrightarrow> typeOf v = Some StringsType"
  by (cases v; simp)+

lemma bind_None_iff: "(x \<bind> f) = None \<longleftrightarrow> x = None \<or> (\<exists>y. x = Some y \<and> f y = None)"
  by (cases x) auto

lemma rangeValues_None:
  assumes "\<And>sb v. v \<in> set values \<Longrightarrow> write sb depth v = map_option ((@) sb) (write [] depth v)"
  shows "rangeValues write sb depth index values = None \<longleftrightarrow> (\<exists>v \<in> set values. write [] depth v = None)"
  using assms
proof (induction "values" arbitrary: sb index)
  case Nil
  then show ?case by simp
next
  case (Cons v "values")
  have w: "write s depth v = map_option ((@) s) (write [] depth v)" for s
    by (rule Cons.prems) simp
  have ih: "rangeValues write s depth i values = None \<longleftrightarrow> (\<exists>v \<in> set values. write [] depth v = None)" for s i
    by (rule Cons.IH, rule Cons.prems) simp
  show ?case
  proof (cases "write [] depth v")
    case None
    then show ?thesis
      by (simp add: Let_def w [of "tabToString (if 0 < index then sb @ comma @ newLine else sb) depth"])
  next
    case (Some out)
    then show ?thesis
      by (simp add: Let_def w [of "tabToString (if 0 < index then sb @ comma @ newLine else sb) depth"] ih)
  qed
qed

lemma valuesToString_None:
  assumes "\<And>sb v. v \<in> set slc \<Longrightarrow> write sb (depth + 1) v = map_option ((@) sb) (write [] (depth + 1) v)"
  shows "valuesToString write sb depth key slc opener closer = None
           \<longleftrightarrow> (\<exists>v \<in> set slc. write [] (depth + 1) v = None)"
proof (cases "slc = []")
  case True
  then show ?thesis by (simp add: valuesToString_def)
next
  case False
  have "rangeValues write s (depth + 1) 0 slc = None \<longleftrightarrow> (\<exists>v \<in> set slc. write [] (depth + 1) v = None)" for s
    by (rule rangeValues_None, rule assms)
  with False show ?thesis
    by (simp add: valuesToString_def Let_def bind_None_iff)
qed

lemma sliceToString_scalar_total: "sliceToString (writeScalar f) sb depth key slc \<noteq> None"
  unfolding sliceToString_def
  by (subst valuesToString_None) (simp_all add: writeScalar_def)

lemma Attr_asString_panics: "Attr_asString E sb depth (Some a) = None \<longleftrightarrow> \<not> matches a"
proof (induction a arbitrary: sb depth rule: matches.induct)
  case (1 key v t)
  show ?case
  proof (cases t)
    case ObjectType
    show ?thesis
    proof (cases "as_Attrs v")
      case None
      with ObjectType assertion_succeeds(1) [of v] show ?thesis
        by (auto simp: Attr_asString.simps(2) payload_ok_def)
    next
      case (Some attrs)
      then have v: "v = AttrsValue attrs" by (cases v) auto
      have "objectToString (\<lambda>sb depth a. Attr_asString E sb depth (Some a)) sb depth key attrs = None
              \<longleftrightarrow> (\<exists>a \<in> set attrs. Attr_asString E [] (depth + 1) (Some a) = None)"
        unfolding objectToString_def
        by (rule valuesToString_None) (rule Attr_asString_append)
      also have "\<dots> \<longleftrightarrow> (\<exists>a \<in> set attrs. \<not> matches a)"
        using 1 [OF v ObjectType] by blast
      finally show ?thesis using ObjectType v
        by (simp add: Attr_asString.simps(2) payload_ok_def list_all_iff)
    qed
  qed (use assertion_succeeds [of v] in
        \<open>auto simp: Attr_asString.simps(2) payload_ok_def bind_None_iff sliceToString_scalar_total
              split: any.splits\<close>)
qed


lemma rangeSlog_None:
  "rangeSlog arm i values attrs = None \<longleftrightarrow> (\<exists>k < length values. arm (i + k) (values ! k) = None)"
proof (induction "values" arbitrary: i attrs)
  case Nil
  then show ?case by simp
next
  case (Cons v "values")
  show ?case
  proof (cases "arm i v")
    case None
    then show ?thesis by auto
  next
    case (Some a)
    have "(\<exists>k < length (v # values). arm (i + k) ((v # values) ! k) = None)
            \<longleftrightarrow> (\<exists>k < length values. arm (i + 1 + k) (values ! k) = None)"
    proof
      assume "\<exists>k < length (v # values). arm (i + k) ((v # values) ! k) = None"
      then obtain k where k: "k < length (v # values)" "arm (i + k) ((v # values) ! k) = None" by blast
      with Some obtain k' where "k = Suc k'" by (cases k) auto
      with k show "\<exists>k < length values. arm (i + 1 + k) (values ! k) = None" by auto
    next
      assume "\<exists>k < length values. arm (i + 1 + k) (values ! k) = None"
      then obtain k where "k < length values" "arm (i + 1 + k) (values ! k) = None" by blast
      then have "Suc k < length (v # values)" "arm (i + Suc k) ((v # values) ! Suc k) = None" by auto
      then show "\<exists>k < length (v # values). arm (i + k) ((v # values) ! k) = None" by blast
    qed
    with Some Cons.IH [of "i + 1" "attrs @ [a]"] show ?thesis by simp
  qed
qed

lemma sliceToSlog_None:
  "sliceToSlog arm key slc = None \<longleftrightarrow> (\<exists>k < length slc. arm k (slc ! k) = None)"
  by (cases "slc = []") (simp_all add: sliceToSlog_def bind_None_iff rangeSlog_None)

lemma sliceToSlog_scalar_total: "sliceToSlog (slogScalar f) key slc \<noteq> None"
  by (simp add: sliceToSlog_None slogScalar_def)

lemma Attr_asSlog_panics: "Attr_asSlog E (Some a) = None \<longleftrightarrow> \<not> matches a"
proof (induction a rule: matches.induct)
  case (1 key v t)
  show ?case
  proof (cases t)
    case ObjectType
    show ?thesis
    proof (cases "as_Attrs v")
      case None
      with ObjectType assertion_succeeds(1) [of v] show ?thesis
        by (auto simp: Attr_asSlog.simps(2) payload_ok_def)
    next
      case (Some attrs)
      then have v: "v = AttrsValue attrs" by (cases v) auto
      have "sliceToSlog (\<lambda>i a. Attr_asSlog E (Some a)) key attrs = None
              \<longleftrightarrow> (\<exists>a \<in> set attrs. Attr_asSlog E (Some a) = None)"
        unfolding sliceToSlog_None by (metis in_set_conv_nth)
      also have "\<dots> \<longleftrightarrow> (\<exists>a \<in> set attrs. \<not> matches a)"
        using 1 [OF v ObjectType] by blast
      finally show ?thesis using ObjectType v
        by (simp add: Attr_asSlog.simps(2) payload_ok_def list_all_iff)
    qed
  qed (use assertion_succeeds [of v] in
        \<open>auto simp: Attr_asSlog.simps(2) payload_ok_def bind_None_iff sliceToSlog_scalar_total
              split: any.splits\<close>)
qed

text \<open>
  Claim C10. For a non-nil attribute, the text encoder and the structured-log encoder
  panic exactly when the payload does not have the dynamic type its tag names, in the
  attribute itself or in a member reached through \<open>ObjectType\<close> groups. So an attribute
  whose payloads match their tags never panics, a mismatch is the only way to a panic,
  and every public constructor builds a matching attribute (\<open>Object\<close> when its members
  match).
\<close>

theorem attr_encoding_panics_only_on_mismatch:
  "(Attr_asString E sb depth (Some a) = None \<longleftrightarrow> \<not> matches a) \<and>
   (Attr_asSlog E (Some a) = None \<longleftrightarrow> \<not> matches a) \<and>
   matches (Any key v) \<and>
   (matches (Object key attrs) \<longleftrightarrow> list_all matches attrs) \<and>
   matches (Bool key b) \<and> matches (Bools key bs) \<and>
   matches (Time key t) \<and> matches (Times key ts) \<and>
   matches (Duration key d) \<and> matches (Durations key ds) \<and>
   matches (Int_attr key w) \<and> matches (Ints key ws) \<and>
   matches (Int64 key w) \<and> matches (Int64s key ws) \<and>
   matches (Uint64 key w) \<and> matches (Uint64s key ws) \<and>
   matches (Float64 key f) \<and> matches (Float64s key fs) \<and>
   matches (String_attr key s) \<and> matches (Strings key ss)"
  by (simp add: Attr_asString_panics Attr_asSlog_panics attr_constructors payload_ok_def
        split: any.splits)

theorem attr_encoding_panics_only_on_mismatch_witness:
  "Attr_asString exampleEnv [] 0 (Some (Object ''o'' [Bool ''b'' True, Ints ''n'' [1, 2]])) \<noteq> None \<and>
   Attr_asSlog exampleEnv (Some (Object ''o'' [Bool ''b'' True, Ints ''n'' [1, 2]])) \<noteq> None \<and>
   Attr_asString exampleEnv [] 0 (Some (Attr ''x'' (StringValue ''s'') BoolType)) = None \<and>
   Attr_asSlog exampleEnv (Some (Object ''o'' [Attr ''x'' (StringValue ''s'') BoolType])) = None"
proof -
  have m: "matches (Object ''o'' [Bool ''b'' True, Ints ''n'' [1, 2]])"
    by (simp add: attr_constructors payload_ok_def)
  have n: "\<not> matches (Attr ''x'' (StringValue ''s'') BoolType)"
    "\<not> matches (Object ''o'' [Attr ''x'' (StringValue ''s'') BoolType])"
    by (simp_all add: attr_constructors payload_ok_def)
  note ok = attr_encoding_panics_only_on_mismatch [where E = exampleEnv and sb = "[]" and depth = 0
         and a = "Object ''o'' [Bool ''b'' True, Ints ''n'' [1, 2]]"]
  note bad1 = attr_encoding_panics_only_on_mismatch [where E = exampleEnv and sb = "[]" and depth = 0
         and a = "Attr ''x'' (StringValue ''s'') BoolType", THEN conjunct1]
  note bad2 = attr_encoding_panics_only_on_mismatch [where E = exampleEnv
         and a = "Object ''o'' [Attr ''x'' (StringValue ''s'') BoolType]", THEN conjunct2, THEN conjunct1]
  from ok [THEN conjunct1] ok [THEN conjunct2, THEN conjunct1] bad1 bad2 m n
  show ?thesis by blast
qed


section \<open>The sections and their order\<close>

lemma slog_AnyValue_not_group: "\<not> isEmptyGroup (slog_AnyValue v)"
  by (cases v) simp_all

lemma sliceToSlog_scalar_empty:
  assumes "sliceToSlog (slogScalar f) key vs = Some x"
    and "\<And>k v. \<not> isEmptyGroup (AttrValue (f k v))"
  shows "isEmptyGroup (AttrValue x) \<longleftrightarrow> vs = []"
proof -
  have "\<exists>out. x = slog_Attr key (KindGroup out) \<and> length out = length vs \<and>
           (\<forall>k < length vs. slogScalar f k (vs ! k) = Some (out ! k))"
  proof (rule sliceToSlog_kept [OF assms(1)])
    fix i v y assume "slogScalar f i v = Some y"
    then show "\<not> isEmptyGroup (AttrValue y)" using assms(2) by (auto simp: slogScalar_def)
  qed
  then show ?thesis by auto
qed

lemma sliceToSlog_attrs_empty:
  assumes x: "sliceToSlog (\<lambda>i a. Attr_asSlog E (Some a)) key attrs = Some x"
    and ih: "\<And>a y. a \<in> set attrs \<Longrightarrow> Attr_asSlog E (Some a) = Some y
                \<Longrightarrow> isEmptyGroup (AttrValue y) \<longleftrightarrow> slogEmpty a"
  shows "isEmptyGroup (AttrValue x) \<longleftrightarrow> list_all slogEmpty attrs"
    and "AttrKey x = key"
proof -
  from sliceToSlog_group [OF x] obtain out where
    out: "rangeSlog (\<lambda>i a. Attr_asSlog E (Some a)) 0 attrs [] = Some out"
    and xx: "x = slog_Attr key (KindGroup (filter (\<lambda>x. \<not> isEmptyGroup (AttrValue x)) out))"
    by blast
  from rangeSlog_all [OF out] have all: "\<forall>k < length attrs. Attr_asSlog E (Some (attrs ! k)) = Some (out ! k)"
    by simp
  from rangeSlog_length [OF out] have len: "length out = length attrs" .
  have "isEmptyGroup (AttrValue x) \<longleftrightarrow> (\<forall>k < length out. isEmptyGroup (AttrValue (out ! k)))"
    using xx by (auto simp: filter_empty_conv all_set_conv_all_nth)
  also have "\<dots> \<longleftrightarrow> (\<forall>k < length attrs. slogEmpty (attrs ! k))"
    using all len ih by (metis nth_mem)
  also have "\<dots> \<longleftrightarrow> list_all slogEmpty attrs"
    by (simp add: list_all_length)
  finally show "isEmptyGroup (AttrValue x) \<longleftrightarrow> list_all slogEmpty attrs" .
  from xx show "AttrKey x = key" by simp
qed

lemma as_cases:
  "as_Attrs v = Some x \<longleftrightarrow> v = AttrsValue x"
  "as_bool v = Some b \<longleftrightarrow> v = BoolValue b"
  "as_bools v = Some bs \<longleftrightarrow> v = BoolsValue bs"
  "as_Time v = Some t \<longleftrightarrow> v = TimeValue t"
  "as_Times v = Some ts \<longleftrightarrow> v = TimesValue ts"
  "as_Duration v = Some d \<longleftrightarrow> v = DurationValue d"
  "as_Durations v = Some ds \<longleftrightarrow> v = DurationsValue ds"
  "as_int v = Some w \<longleftrightarrow> v = IntValue w"
  "as_ints v = Some ws \<longleftrightarrow> v = IntsValue ws"
  "as_int64 v = Some w \<longleftrightarrow> v = Int64Value w"
  "as_int64s v = Some ws \<longleftrightarrow> v = Int64sValue ws"
  "as_uint64 v = Some w \<longleftrightarrow> v = Uint64Value w"
  "as_uint64s v = Some ws \<longleftrightarrow> v = Uint64sValue ws"
  "as_float64 v = Some f \<longleftrightarrow> v = Float64Value f"
  "as_float64s v = Some fs \<longleftrightarrow> v = Float64sValue fs"
  "as_string v = Some s \<longleftrightarrow> v = StringValue s"
  "as_strings v = Some ss \<longleftrightarrow> v = StringsValue ss"
  by (cases v; auto)+

lemmas slog_scalars = slog_Bool_def slog_Time_def slog_Duration_def slog_Int_def slog_Int64_def
  slog_Uint64_def slog_Float64_def slog_String_def slog_Any_def

lemma Attr_asSlog_empty:
  "Attr_asSlog E (Some a) = Some x \<Longrightarrow> isEmptyGroup (AttrValue x) \<longleftrightarrow> slogEmpty a"
proof (induction a arbitrary: x rule: slogEmpty.induct)
  case (1 key v t)
  note x = \<open>Attr_asSlog E (Some (Attr key v t)) = Some x\<close>
  show ?case
  proof (cases t)
    case ObjectType
    with x obtain attrs where v: "v = AttrsValue attrs"
      and s: "sliceToSlog (\<lambda>i a. Attr_asSlog E (Some a)) key attrs = Some x"
      by (auto simp: Attr_asSlog.simps(2) as_cases split: Option.bind_splits)
    have "isEmptyGroup (AttrValue x) \<longleftrightarrow> list_all slogEmpty attrs"
      by (rule sliceToSlog_attrs_empty(1) [OF s]) (rule 1(1) [OF v])
    with v ObjectType show ?thesis by simp
  next
    case AnyType
    with x show ?thesis
      by (auto simp: Attr_asSlog.simps(2) slog_Any_def slog_AnyValue_not_group split: any.splits)
  next
    case (OtherType n)
    with x show ?thesis
      by (auto simp: Attr_asSlog.simps(2) slog_Any_def slog_AnyValue_not_group split: any.splits)
  next
    case BoolsType
    with x obtain vs where v: "v = BoolsValue vs" and s: "sliceToSlog (slogScalar slog_Bool) key vs = Some x"
      by (auto simp: Attr_asSlog.simps(2) as_cases split: Option.bind_splits)
    from sliceToSlog_scalar_empty [OF s] v BoolsType show ?thesis by (simp add: slog_scalars)
  next
    case TimesType
    with x obtain vs where v: "v = TimesValue vs" and s: "sliceToSlog (slogScalar slog_Time) key vs = Some x"
      by (auto simp: Attr_asSlog.simps(2) as_cases split: Option.bind_splits)
    from sliceToSlog_scalar_empty [OF s] v TimesType show ?thesis by (simp add: slog_scalars)
  next
    case DurationsType
    with x obtain vs where v: "v = DurationsValue vs" and s: "sliceToSlog (slogScalar slog_Duration) key vs = Some x"
      by (auto simp: Attr_asSlog.simps(2) as_cases split: Option.bind_splits)
    from sliceToSlog_scalar_empty [OF s] v DurationsType show ?thesis by (simp add: slog_scalars)
  next
    case IntsType
    with x obtain vs where v: "v = IntsValue vs" and s: "sliceToSlog (slogScalar slog_Int) key vs = Some x"
      by (auto simp: Attr_asSlog.simps(2) as_cases split: Option.bind_splits)
    from sliceToSlog_scalar_empty [OF s] v IntsType show ?thesis by (simp add: slog_scalars)
  next
    case Int64sType
    with x obtain vs where v: "v = Int64sValue vs" and s: "sliceToSlog (slogScalar slog_Int64) key vs = Some x"
      by (auto simp: Attr_asSlog.simps(2) as_cases split: Option.bind_splits)
    from sliceToSlog_scalar_empty [OF s] v Int64sType show ?thesis by (simp add: slog_scalars)
  next
    case Uint64sType
    with x obtain vs where v: "v = Uint64sValue vs" and s: "sliceToSlog (slogScalar slog_Uint64) key vs = Some x"
      by (auto simp: Attr_asSlog.simps(2) as_cases split: Option.bind_splits)
    from sliceToSlog_scalar_empty [OF s] v Uint64sType show ?thesis by (simp add: slog_scalars)
  next
    case Float64sType
    with x obtain vs where v: "v = Float64sValue vs" and s: "sliceToSlog (slogScalar slog_Float64) key vs = Some x"
      by (auto simp: Attr_asSlog.simps(2) as_cases split: Option.bind_splits)
    from sliceToSlog_scalar_empty [OF s] v Float64sType show ?thesis by (simp add: slog_scalars)
  next
    case StringsType
    with x obtain vs where v: "v = StringsValue vs"
      and s: "sliceToSlog (slogScalar (\<lambda>key v. slog_String key (TrimSpace E v))) key vs = Some x"
      by (auto simp: Attr_asSlog.simps(2) as_cases split: Option.bind_splits)
    from sliceToSlog_scalar_empty [OF s] v StringsType show ?thesis by (simp add: slog_scalars)
  qed (use x in \<open>auto simp: Attr_asSlog.simps(2) as_cases slog_scalars split: Option.bind_splits\<close>)
qed


lemma slogSection_cases:
  assumes "slogSection present a = Some xs"
  shows "(\<not> present \<and> xs = []) \<or> (present \<and> (\<exists>x. a = Some x \<and> xs = [x]))"
  using assms by (auto simp: slogSection_def split: if_splits)

lemma LogValue_keys:
  assumes "LogValue E (Some r) = Some v"
  shows "\<exists>as. v = KindGroup as \<and>
           map AttrKey as =
             [messageKey] @ (if Tags r = [] then [] else [tagsKey])
                          @ (if list_all slogEmpty (Attrs r) then [] else [attrsKey])
                          @ (if Errors r = [] then [] else [errorsKey])
                          @ (if Stack r = [] then [] else [stackKey])"
proof -
  let ?S = "slogScalar (\<lambda>key v. slog_String key (TrimSpace E v))"
  from assms obtain t a e s where
    t: "slogSection (Tags r \<noteq> []) (sliceToSlog ?S tagsKey (Tags r)) = Some t"
    and a: "slogSection (Attrs r \<noteq> []) (sliceToSlog (\<lambda>i a. Attr_asSlog E (Some a)) attrsKey (Attrs r)) = Some a"
    and e: "slogSection (Errors r \<noteq> [])
              (sliceToSlog (\<lambda>i err. errorToSlog E (Itoa (int i)) err) errorsKey
                 (normalizeErrors E 0 (Errors r))) = Some e"
    and s: "slogSection (Stack r \<noteq> []) (sliceToSlog ?S stackKey (Split_newLine (Stack r))) = Some s"
    and v: "v = slog_GroupValue ([slog_String messageKey (cmpOr (Message r) nilValue)] @ t @ a @ e @ s)"
    unfolding LogValue_bind by (auto split: Option.bind_splits)
  \<comment> \<open>tags\<close>
  have T: "filter (\<lambda>a. \<not> isEmptyGroup (AttrValue a)) t = t"
    "map AttrKey t = (if Tags r = [] then [] else [tagsKey])"
  proof -
    from slogSection_cases [OF t] sliceToSlog_strings [of "TrimSpace E" tagsKey "Tags r"]
    have "(Tags r = [] \<and> t = []) \<or>
          (Tags r \<noteq> [] \<and> (\<exists>out. t = [slog_Attr tagsKey (KindGroup out)] \<and> length out = length (Tags r)))"
      by auto
    then show "filter (\<lambda>a. \<not> isEmptyGroup (AttrValue a)) t = t"
      and "map AttrKey t = (if Tags r = [] then [] else [tagsKey])"
      by auto
  qed
  \<comment> \<open>stack\<close>
  have S: "filter (\<lambda>a. \<not> isEmptyGroup (AttrValue a)) s = s"
    "map AttrKey s = (if Stack r = [] then [] else [stackKey])"
  proof -
    have ne: "Split_newLine (Stack r) \<noteq> []"
      by (simp add: Split_newLine_def splitByte_not_empty)
    from slogSection_cases [OF s] sliceToSlog_strings [of "TrimSpace E" stackKey "Split_newLine (Stack r)"]
    have "(Stack r = [] \<and> s = []) \<or>
          (Stack r \<noteq> [] \<and> (\<exists>out. s = [slog_Attr stackKey (KindGroup out)] \<and>
               length out = length (Split_newLine (Stack r))))"
      by auto
    with ne show "filter (\<lambda>a. \<not> isEmptyGroup (AttrValue a)) s = s"
      and "map AttrKey s = (if Stack r = [] then [] else [stackKey])"
      by auto
  qed
  \<comment> \<open>errors\<close>
  have Er: "filter (\<lambda>a. \<not> isEmptyGroup (AttrValue a)) e = e"
    "map AttrKey e = (if Errors r = [] then [] else [errorsKey])"
  proof -
    have "(Errors r = [] \<and> e = []) \<or>
          (Errors r \<noteq> [] \<and> (\<exists>out. e = [slog_Attr errorsKey (KindGroup out)] \<and> out \<noteq> []))"
    proof (cases "Errors r = []")
      case True
      with slogSection_cases [OF e] show ?thesis by auto
    next
      case False
      with slogSection_cases [OF e] obtain x where
        x: "sliceToSlog (\<lambda>i err. errorToSlog E (Itoa (int i)) err) errorsKey
              (normalizeErrors E 0 (Errors r)) = Some x" and ex: "e = [x]"
        by auto
      have "\<exists>out. x = slog_Attr errorsKey (KindGroup out) \<and>
              length out = length (normalizeErrors E 0 (Errors r)) \<and>
              (\<forall>k < length (normalizeErrors E 0 (Errors r)).
                  errorToSlog E (Itoa (int k)) (normalizeErrors E 0 (Errors r) ! k) = Some (out ! k))"
      proof (rule sliceToSlog_kept [OF x])
        fix i v y assume "errorToSlog E (Itoa (int i)) v = Some y"
        then show "\<not> isEmptyGroup (AttrValue y)" by (rule errorToSlog_not_empty)
      qed
      with normalizeErrors_not_empty [OF False, of E 0] ex False show ?thesis by auto
    qed
    then show "filter (\<lambda>a. \<not> isEmptyGroup (AttrValue a)) e = e"
      and "map AttrKey e = (if Errors r = [] then [] else [errorsKey])"
      by auto
  qed
  \<comment> \<open>attrs\<close>
  have A: "map AttrKey (filter (\<lambda>a. \<not> isEmptyGroup (AttrValue a)) a)
             = (if list_all slogEmpty (Attrs r) then [] else [attrsKey])"
  proof (cases "Attrs r = []")
    case True
    with slogSection_cases [OF a] show ?thesis by auto
  next
    case False
    with slogSection_cases [OF a] obtain x where
      x: "sliceToSlog (\<lambda>i a. Attr_asSlog E (Some a)) attrsKey (Attrs r) = Some x" and ax: "a = [x]"
      by auto
    have "isEmptyGroup (AttrValue x) \<longleftrightarrow> list_all slogEmpty (Attrs r)" and "AttrKey x = attrsKey"
      by (rule sliceToSlog_attrs_empty [OF x], rule Attr_asSlog_empty, assumption)+
    with ax show ?thesis by simp
  qed
  have "v = KindGroup ([slog_String messageKey (cmpOr (Message r) nilValue)] @ t
                @ filter (\<lambda>a. \<not> isEmptyGroup (AttrValue a)) a @ e @ s)"
    unfolding v slog_GroupValue_def by (simp add: T S Er slog_String_def)
  then show ?thesis
    using T(2) S(2) Er(2) A by (auto simp: slog_String_def)
qed

lemma valuesToString_prefix:
  assumes "\<And>sb v. v \<in> set slc \<Longrightarrow> write sb (depth + 1) v = map_option ((@) sb) (write [] (depth + 1) v)"
    and "valuesToString write [] depth key slc opener closer = Some out"
  shows "prefix (parenthesisOpen @ key @ equals @ opener) out" and "out \<noteq> []"
proof -
  have a: "write sb (Suc depth) v = map_option ((@) sb) (write [] (Suc depth) v)"
    if "v \<in> set slc" for sb v
    using assms(1) [OF that] unfolding Suc_eq_plus1 .
  have r: "rangeValues write s (Suc depth) 0 slc = map_option ((@) s) (rangeValues write [] (Suc depth) 0 slc)" for s
    by (rule rangeValues_append, rule a)
  define hd where "hd = parenthesisOpen @ key @ equals @ opener"
  have "prefix hd out \<and> out \<noteq> []"
  proof (cases "slc = []")
    case True
    with assms(2) show ?thesis
      by (auto simp: valuesToString_def hd_def parenthesisOpen_def)
  next
    case False
    with assms(2) obtain s2 where
      s2: "rangeValues write (hd @ newLine) (Suc depth) 0 slc = Some s2"
      and out: "out = tabToString (s2 @ newLine) depth @ closer @ parenthesisClose"
      unfolding valuesToString_def Let_def hd_def by (auto split: Option.bind_splits)
    from s2 obtain y where "s2 = (hd @ newLine) @ y"
      unfolding r [of "hd @ newLine"] by auto
    with out show ?thesis
      by (simp add: tabToString_append hd_def parenthesisOpen_def)
  qed
  then show "prefix (parenthesisOpen @ key @ equals @ opener) out" and "out \<noteq> []"
    by (simp_all add: hd_def)
qed

lemma section_prefix:
  assumes "\<And>sb v. v \<in> set slc \<Longrightarrow> write sb (depth + 1) v = map_option ((@) sb) (write [] (depth + 1) v)"
    and "map_option ((@) sep) (sliceToString write [] depth key slc) = Some out"
  shows "prefix (sep @ ''('' @ key @ ''=['') out" and "out \<noteq> []"
proof -
  from assms(2) obtain x where x: "valuesToString write [] depth key slc bracketOpen bracketClose = Some x"
    and out: "out = sep @ x"
    by (auto simp: sliceToString_def)
  from valuesToString_prefix [OF assms(1) x] out
  show "prefix (sep @ ''('' @ key @ ''=['') out" and "out \<noteq> []"
    by (simp_all add: text_constants)
qed

lemma tagsSection_shape:
  assumes "tagsSection E r = Some t"
  shows "(t = [] \<longleftrightarrow> Tags r = []) \<and> (Tags r \<noteq> [] \<longrightarrow> prefix (comma @ newLine @ ''(tags=['') t)"
proof (cases "Tags r = []")
  case True
  with assms show ?thesis by (simp add: tagsSection_def)
next
  case False
  with assms have "map_option ((@) (comma @ newLine))
      (sliceToString (writeScalar (TrimSpace E)) [] 0 tagsKey (Tags r)) = Some t"
    by (simp add: tagsSection_def)
  from section_prefix [OF _ this] False show ?thesis
    by (simp add: writeScalar_def tagsKey_def)
qed

lemma attrsSection_shape:
  assumes "attrsSection E depth r = Some a"
  shows "(a = [] \<longleftrightarrow> Attrs r = []) \<and> (Attrs r \<noteq> [] \<longrightarrow> prefix (comma @ newLine @ ''(attrs=['') a)"
proof (cases "Attrs r = []")
  case True
  with assms show ?thesis by (simp add: attrsSection_def)
next
  case False
  with assms have "map_option ((@) (comma @ newLine))
      (sliceToString (\<lambda>sb depth a. Attr_asString E sb depth (Some a)) [] depth attrsKey (Attrs r)) = Some a"
    by (simp add: attrsSection_def)
  from section_prefix [OF Attr_asString_append this] False show ?thesis
    by (simp add: attrsKey_def)
qed

lemma errorsSection_shape:
  assumes "errorsSection E depth r = Some e"
  shows "(e = [] \<longleftrightarrow> Errors r = []) \<and>
         (Errors r \<noteq> [] \<longrightarrow> prefix (comma @ newLine @ concat (replicate depth tab) @ ''(errors=['') e)"
proof (cases "Errors r = []")
  case True
  with assms show ?thesis by (simp add: errorsSection_def)
next
  case False
  with assms have "map_option ((@) (tabToString (comma @ newLine) depth))
      (sliceToString (\<lambda>sb depth err. errorToString E sb depth err) [] depth errorsKey
         (normalizeErrors E 0 (Errors r))) = Some e"
    by (simp add: errorsSection_def)
  from section_prefix [OF asString_errorToString_append(1) this] False show ?thesis
    by (simp add: errorsKey_def tabToString_append)
qed

lemma stackSection_shape:
  "(stackSection r = [] \<longleftrightarrow> Stack r = []) \<and>
   (Stack r \<noteq> [] \<longrightarrow> stackSection r = comma @ newLine @ ''(stack='' @ Stack r @ '')'' @ newLine)"
  by (simp add: stackSection_def valueToString_def text_constants)


text \<open>
  Claim C6 says that every encoder shows the attributes section exactly when \<open>Attrs\<close> is
  not empty. The structured-log encoder does not: an aggregate whose only attribute is
  an \<open>Object\<close> without members has a non-empty \<open>Attrs\<close>, and its value holds the message
  alone, because \<^verbatim>\<open>slog.GroupValue\<close> drops the empty groups.
\<close>

theorem attrs_section_dropped_counterexample:
  "Attrs (WithAttrs [Object ''o'' []] (New ''m'')) \<noteq> [] \<and>
   LogValue exampleEnv (Some (WithAttrs [Object ''o'' []] (New ''m'')))
     = Some (KindGroup [slog_Attr ''message'' (KindString ''m'')])"
  by code_simp


text \<open>
  Claim C6, amended. For a non-nil aggregate the text encoder writes the message section
  (the sentinel for an empty message) and then the tags, attributes, errors and stack
  sections, each exactly when its field is not empty, in that order. The value of the
  structured-log encoder holds, in the same order, \<open>message\<close> always, \<open>tags\<close>, \<open>errors\<close>
  and \<open>stack\<close> exactly when their field is not empty, and \<open>attrs\<close> exactly when some
  attribute is not rendered as an empty group.
\<close>

theorem sections_in_fixed_order:
  "asString E sb depth (Some r) =
     do { t \<leftarrow> tagsSection E r;
          a \<leftarrow> attrsSection E depth r;
          e \<leftarrow> errorsSection E depth r;
          Some (sb @ messageSection r @ t @ a @ e @ stackSection r) } \<and>
   messageSection r = ''(message='' @ (if Message r = [] then ''!NILVALUE'' else Message r) @ '')'' \<and>
   (\<forall>t. tagsSection E r = Some t \<longrightarrow>
      (t = [] \<longleftrightarrow> Tags r = []) \<and>
      (Tags r \<noteq> [] \<longrightarrow> prefix (comma @ newLine @ ''(tags=['') t)) \<and>
   (\<forall>a. attrsSection E depth r = Some a \<longrightarrow>
      (a = [] \<longleftrightarrow> Attrs r = []) \<and>
      (Attrs r \<noteq> [] \<longrightarrow> prefix (comma @ newLine @ ''(attrs=['') a)) \<and>
   (\<forall>e. errorsSection E depth r = Some e \<longrightarrow>
      (e = [] \<longleftrightarrow> Errors r = []) \<and>
      (Errors r \<noteq> [] \<longrightarrow>
         prefix (comma @ newLine @ concat (replicate depth tab) @ ''(errors=['') e)) \<and>
   (stackSection r = [] \<longleftrightarrow> Stack r = []) \<and>
   (Stack r \<noteq> [] \<longrightarrow>
      stackSection r = comma @ newLine @ ''(stack='' @ Stack r @ '')'' @ newLine) \<and>
   (\<forall>v. LogValue E (Some r) = Some v \<longrightarrow>
      (\<exists>as. v = KindGroup as \<and>
         map AttrKey as =
           [''message''] @ (if Tags r = [] then [] else [''tags''])
                         @ (if list_all slogEmpty (Attrs r) then [] else [''attrs''])
                         @ (if Errors r = [] then [] else [''errors''])
                         @ (if Stack r = [] then [] else [''stack''])))"
proof (intro conjI allI impI)
  show "asString E sb depth (Some r) =
     do { t \<leftarrow> tagsSection E r;
          a \<leftarrow> attrsSection E depth r;
          e \<leftarrow> errorsSection E depth r;
          Some (sb @ messageSection r @ t @ a @ e @ stackSection r) }"
    by (rule asString_sections)
  show "messageSection r = ''(message='' @ (if Message r = [] then ''!NILVALUE'' else Message r) @ '')''"
    by (rule messageSection_text)
  show "(stackSection r = []) = (Stack r = [])"
    using stackSection_shape [of r] by blast
next
  fix t assume "tagsSection E r = Some t"
  from tagsSection_shape [OF this]
  show "(t = []) = (Tags r = [])" and "Tags r \<noteq> [] \<Longrightarrow> prefix (comma @ newLine @ ''(tags=['') t"
    by blast+
next
  fix a assume "attrsSection E depth r = Some a"
  from attrsSection_shape [OF this]
  show "(a = []) = (Attrs r = [])" and "Attrs r \<noteq> [] \<Longrightarrow> prefix (comma @ newLine @ ''(attrs=['') a"
    by blast+
next
  fix e assume "errorsSection E depth r = Some e"
  from errorsSection_shape [OF this]
  show "(e = []) = (Errors r = [])"
    and "Errors r \<noteq> [] \<Longrightarrow> prefix (comma @ newLine @ concat (replicate depth tab) @ ''(errors=['') e"
    by blast+
next
  assume "Stack r \<noteq> []"
  then show "stackSection r = comma @ newLine @ ''(stack='' @ Stack r @ '')'' @ newLine"
    using stackSection_shape [of r] by blast
next
  fix v assume "LogValue E (Some r) = Some v"
  from LogValue_keys [OF this]
  show "\<exists>as. v = KindGroup as \<and>
         map AttrKey as =
           [''message''] @ (if Tags r = [] then [] else [''tags''])
                         @ (if list_all slogEmpty (Attrs r) then [] else [''attrs''])
                         @ (if Errors r = [] then [] else [''errors''])
                         @ (if Stack r = [] then [] else [''stack''])"
    unfolding messageKey_def tagsKey_def attrsKey_def errorsKey_def stackKey_def .
qed

theorem sections_in_fixed_order_witness:
  "(\<exists>as. LogValue exampleEnv
            (Some (WithStack ''st'' (WithErrors [NilError, StdError ''x'']
               (WithAttrs [Bool ''b'' True] (WithTags [''t''] (New ''m'')))))) = Some (KindGroup as) \<and>
         map AttrKey as = [''message'', ''tags'', ''attrs'', ''errors'', ''stack'']) \<and>
   (\<exists>t. tagsSection exampleEnv
            (WithStack ''st'' (WithErrors [NilError, StdError ''x'']
               (WithAttrs [Bool ''b'' True] (WithTags [''t''] (New ''m''))))) = Some t \<and>
        prefix (comma @ newLine @ ''(tags=['') t)"
proof -
  define r where "r = WithStack ''st'' (WithErrors [NilError, StdError ''x'']
               (WithAttrs [Bool ''b'' True] (WithTags [''t''] (New ''m''))))"
  have f: "Tags r = [''t'']" "Attrs r = [Bool ''b'' True]" "Errors r = [NilError, StdError ''x'']"
    "Stack r = ''st''"
    by (simp_all add: r_def WithStack_def WithErrors_def WithAttrs_def WithTags_def New_def)
  have ne: "\<not> list_all slogEmpty (Attrs r)"
    by (simp add: f Bool_def)
  obtain v where v: "LogValue exampleEnv (Some r) = Some v"
  proof -
    have "LogValue exampleEnv (Some r) \<noteq> None" unfolding r_def by code_simp
    then show ?thesis using that by blast
  qed
  obtain t where t: "tagsSection exampleEnv r = Some t"
  proof -
    have "tagsSection exampleEnv r \<noteq> None" unfolding r_def by code_simp
    then show ?thesis using that by blast
  qed
  note T = sections_in_fixed_order [where E = exampleEnv and r = r and sb = "[]" and depth = 0]
  note tg = T [THEN conjunct2, THEN conjunct2, THEN conjunct1, rule_format, OF t]
  note lv = T [THEN conjunct2, THEN conjunct2, THEN conjunct2, THEN conjunct2, THEN conjunct2,
               THEN conjunct2, THEN conjunct2, rule_format, OF v]
  from tg t f have 1: "\<exists>t. tagsSection exampleEnv r = Some t \<and> prefix (comma @ newLine @ ''(tags=['') t"
    by auto
  from lv v f ne have 2: "\<exists>as. LogValue exampleEnv (Some r) = Some (KindGroup as) \<and>
         map AttrKey as = [''message'', ''tags'', ''attrs'', ''errors'', ''stack'']"
    by auto
  from 1 2 show ?thesis unfolding r_def by blast
qed


section \<open>Deep and cyclic stored graphs\<close>

text \<open>
  The normalizer is bounded by the maximum depth on every store: on a chain of
  multi-wraps longer than the maximum it stops expanding, and on a multi-wrap that
  wraps itself it returns the candidates reached when the depth passes the maximum.
\<close>

lemma chain_longer_than_max_depth:
  "normalizeErrors_heap (exampleEnv \<lparr> maxDepthMarshal := 1 \<rparr>) chainHeap 0 [ObjRef 3]
     = [ObjRef 1, NilRef, NilRef]"
  by code_simp

lemma cyclic_wraps_are_cut:
  "normalizeErrors_heap (exampleEnv \<lparr> maxDepthMarshal := 1 \<rparr>) loopHeap 0 [ObjRef 0]
     = [ObjRef 0, ObjRef 0, ObjRef 0, ObjRef 0]"
  by code_simp

text \<open>
  The encoders themselves carry no bound: \<^verbatim>\<open>asString\<close> and \<^verbatim>\<open>LogValue\<close> enter the
  normalizer at depth zero for every aggregate they render, and an aggregate is an entry
  of the normalized sequence as it is. On the self-referential aggregate every call
  leads to the same call again.
\<close>

lemma selfReferential_diverges:
  "asString_heap fuel E selfReferential sb depth (Some 0) = Timeout \<and>
   errorToString_heap fuel E selfReferential sb depth (AggRef (Some 0)) = Timeout"
proof (induction fuel arbitrary: sb depth)
  case 0
  then show ?case by simp
next
  case (Suc fuel)
  have n: "normalizeErrors_heap E selfReferential 0 [AggRef (Some 0)] = [AggRef (Some 0)]"
    by simp
  have a: "asString_heap (Suc fuel) E selfReferential sb depth (Some 0) = Timeout"
    using Suc [THEN conjunct2]
    by (simp add: selfReferential_def valuesToString_heap_def Let_def n [unfolded selfReferential_def])
  have e: "errorToString_heap (Suc fuel) E selfReferential sb depth (AggRef (Some 0)) = Timeout"
  proof (cases fuel)
    case 0
    then show ?thesis by simp
  next
    case (Suc k)
    with Suc.IH [THEN conjunct1] show ?thesis by simp
  qed
  from a e show ?case by simp
qed

lemma normalizeErrors_heap_over_depth:
  "int depth > maxDepthMarshal E \<Longrightarrow> normalizeErrors_heap E h depth errs = errs"
  by (induction errs) simp_all

lemma firstFound_ok:
  assumes "\<And>x. x \<in> set xs \<Longrightarrow> \<exists>res. f x = Ok res \<and> (\<forall>p. res = Some p \<longrightarrow> Q p)"
  shows "\<exists>res. firstFound f xs = Ok res \<and> (\<forall>p. res = Some p \<longrightarrow> Q p)"
  using assms
proof (induction xs)
  case Nil
  then show ?case by simp
next
  case (Cons x xs)
  from Cons.prems [of x] obtain res where res: "f x = Ok res" "\<forall>p. res = Some p \<longrightarrow> Q p" by auto
  show ?case
  proof (cases res)
    case None
    with res Cons show ?thesis by simp
  next
    case (Some p)
    with res show ?thesis by simp
  qed
qed

lemma errors_As_heap_ok:
  assumes "ranked h rk"
  shows "rk r < fuel \<Longrightarrow>
     \<exists>res. errors_As_heap fuel h r = Ok res \<and> (\<forall>p. res = Some p \<longrightarrow> rk (AggRef p) \<le> rk r)"
proof (induction fuel arbitrary: r)
  case 0
  then show ?case by simp
next
  case (Suc fuel)
  show ?case
  proof (cases r)
    case NilRef
    then show ?thesis by simp
  next
    case (AggRef p)
    then show ?thesis by simp
  next
    case (ObjRef a)
    have less: "rk c < fuel" if "c \<in> set (children (objs h a))" for c
      using assms that Suc.prems ObjRef unfolding ranked_def by fastforce
    have below: "rk c < rk r" if "c \<in> set (children (objs h a))" for c
      using assms that ObjRef unfolding ranked_def by fastforce
    show ?thesis
    proof (cases "objs h a")
      case (StdObj m)
      with ObjRef show ?thesis by simp
    next
      case (WrapObj m cause)
      with Suc.IH [of cause] less [of cause] below [of cause] ObjRef show ?thesis
        by fastforce
    next
      case (WrapsObj m causes)
      have "\<exists>res. firstFound (errors_As_heap fuel h) causes = Ok res \<and>
               (\<forall>p. res = Some p \<longrightarrow> rk (AggRef p) \<le> rk r)"
      proof (rule firstFound_ok)
        fix c assume c: "c \<in> set causes"
        with WrapsObj less [of c] below [of c] Suc.IH [of c]
        show "\<exists>res. errors_As_heap fuel h c = Ok res \<and> (\<forall>p. res = Some p \<longrightarrow> rk (AggRef p) \<le> rk r)"
          by fastforce
      qed
      with WrapsObj ObjRef show ?thesis by simp
    qed
  qed
qed

lemma normalizeErrors_heap_rank:
  "ranked h rk \<Longrightarrow> x \<in> set (normalizeErrors_heap E h depth errs) \<Longrightarrow> \<exists>r \<in> set errs. rk x \<le> rk r"
proof (induction E h depth errs rule: normalizeErrors_heap.induct)
  case (1 E h depth)
  then show ?case by simp
next
  case (2 E h depth err errs)
  note rkd = \<open>ranked h rk\<close>
  note xin = \<open>x \<in> set (normalizeErrors_heap E h depth (err # errs))\<close>
  show ?case
  proof (cases "x \<in> set (normalizeErrors_heap E h depth errs)")
    case True
    with 2(2) [OF rkd] show ?thesis by auto
  next
    case notin: False
    show ?thesis
    proof (cases "int depth > maxDepthMarshal E")
      case True
      with xin notin show ?thesis by auto
    next
      case nd: False
      show ?thesis
      proof (cases err)
        case NilRef
        with xin notin nd show ?thesis by auto
      next
        case (AggRef p)
        with xin notin nd show ?thesis by auto
      next
        case (ObjRef a)
        have below: "rk c < rk err" if "c \<in> set (children (objs h a))" for c
          using rkd that ObjRef unfolding ranked_def by blast
        show ?thesis
        proof (cases "objs h a")
          case (StdObj m)
          with xin notin nd ObjRef show ?thesis by auto
        next
          case (WrapObj m cause)
          from below [of cause] WrapObj have "rk cause \<le> rk err" by simp
          with xin notin nd ObjRef WrapObj show ?thesis
            by (auto split: if_splits)
        next
          case (WrapsObj m causes)
          show ?thesis
          proof (cases "length causes \<ge> 2")
            case True
            with xin notin nd ObjRef WrapsObj
            have "x \<in> set (normalizeErrors_heap E h (depth + 1) causes)" by auto
            from 2(1) [OF nd ObjRef WrapsObj True rkd this] obtain c where "c \<in> set causes" "rk x \<le> rk c"
              by blast
            with below [of c] WrapsObj show ?thesis by auto
          next
            case False
            with xin notin nd ObjRef WrapsObj have "x = err \<or> (causes \<noteq> [] \<and> x = hd causes)"
              by (auto split: if_splits)
            moreover have "causes \<noteq> [] \<Longrightarrow> rk (hd causes) \<le> rk err"
              using below [of "hd causes"] WrapsObj by simp
            ultimately show ?thesis by auto
          qed
        qed
      qed
    qed
  qed
qed

lemma rangeValues_heap_ok:
  assumes "\<And>sb v. v \<in> set values \<Longrightarrow> \<exists>out. write sb depth v = Ok out"
  shows "\<exists>out. rangeValues_heap write sb depth index values = Ok out"
  using assms
proof (induction "values" arbitrary: sb index)
  case Nil
  then show ?case by simp
next
  case (Cons v "values")
  from Cons.prems [of v] obtain out where
    "write (tabToString (if index > 0 then sb @ comma @ newLine else sb) depth) depth v = Ok out"
    by auto
  with Cons.IH [of out "index + 1"] Cons.prems show ?case by simp
qed

lemma valuesToString_heap_ok:
  assumes "\<And>sb v. v \<in> set slc \<Longrightarrow> \<exists>out. write sb (depth + 1) v = Ok out"
  shows "\<exists>out. valuesToString_heap write sb depth key slc opener closer = Ok out"
proof (cases "slc = []")
  case True
  then show ?thesis by (simp add: valuesToString_heap_def)
next
  case False
  from rangeValues_heap_ok [of slc "write" "depth + 1", OF assms]
  obtain out where "rangeValues_heap write (sb @ parenthesisOpen @ key @ equals @ opener @ newLine) (depth + 1) 0 slc = Ok out"
    by blast
  with False show ?thesis by (simp add: valuesToString_heap_def Let_def)
qed

lemma sliceToString_attrs_total:
  "list_all matches attrs \<Longrightarrow>
     \<exists>out. sliceToString (\<lambda>sb depth a. Attr_asString E sb depth (Some a)) sb depth key attrs = Some out"
proof -
  assume m: "list_all matches attrs"
  have "valuesToString (\<lambda>sb depth a. Attr_asString E sb depth (Some a)) sb depth key attrs
           bracketOpen bracketClose = None
          \<longleftrightarrow> (\<exists>a \<in> set attrs. Attr_asString E [] (depth + 1) (Some a) = None)"
    by (rule valuesToString_None) (rule Attr_asString_append)
  with m show ?thesis
    by (auto simp: sliceToString_def Attr_asString_panics list_all_iff)
qed

lemma sliceToString_scalar_Some: "\<exists>out. sliceToString (writeScalar f) sb depth key slc = Some out"
  using sliceToString_scalar_total [of f sb depth key slc] by auto


lemma bindR_okI:
  "\<exists>x. m = Ok x \<Longrightarrow> (\<And>x. \<exists>out. f x = Ok out) \<Longrightarrow> \<exists>out. bindR m f = Ok out"
  by auto

lemma liftO_okI: "\<exists>out. m = Some out \<Longrightarrow> \<exists>x. liftO m = Ok x"
  by auto

lemma asString_heap_step:
  assumes attrs: "list_all matches (nodeAttrs (aggs h a))"
    and errs: "\<And>sb x. x \<in> set (normalizeErrors_heap E h 0 (nodeErrors (aggs h a))) \<Longrightarrow>
                 \<exists>out. errorToString_heap fuel E h sb (depth + 1) x = Ok out"
  shows "\<exists>out. asString_heap (Suc fuel) E h sb depth (Some a) = Ok out"
  unfolding asString_heap.simps Let_def
proof (intro bindR_okI)
  show "\<exists>x. (if 0 < length (nodeTags (aggs h a))
              then liftO (sliceToString (writeScalar (TrimSpace E))
                     (valueToString sb messageKey (cmpOr (nodeMessage (aggs h a)) nilValue) @ comma @ newLine)
                     0 tagsKey (nodeTags (aggs h a)))
              else Ok (valueToString sb messageKey (cmpOr (nodeMessage (aggs h a)) nilValue))) = Ok x"
    by (simp add: liftO_okI sliceToString_scalar_Some)
next
  fix x
  show "\<exists>y. (if 0 < length (nodeAttrs (aggs h a))
              then liftO (sliceToString (\<lambda>sb depth a. Attr_asString E sb depth (Some a))
                     (x @ comma @ newLine) depth attrsKey (nodeAttrs (aggs h a)))
              else Ok x) = Ok y"
    using sliceToString_attrs_total [OF attrs] by (simp add: liftO_okI)
next
  fix x y :: string
  show "\<exists>z. (if 0 < length (nodeErrors (aggs h a))
              then valuesToString_heap (errorToString_heap fuel E h)
                     (tabToString (y @ comma @ newLine) depth) depth errorsKey
                     (normalizeErrors_heap E h 0 (nodeErrors (aggs h a))) bracketOpen bracketClose
              else Ok y) = Ok z"
    using valuesToString_heap_ok [of "normalizeErrors_heap E h 0 (nodeErrors (aggs h a))"
            "errorToString_heap fuel E h" depth, OF errs]
    by simp
next
  fix x y z :: string
  show "\<exists>out. Ok (if 0 < length (nodeStack (aggs h a))
                  then valueToString (z @ comma @ newLine) stackKey (nodeStack (aggs h a)) @ newLine
                  else z) = Ok out"
    by simp
qed

lemma errorToString_heap_step:
  assumes rkd: "ranked h rk"
    and fuel: "rk r < fuel"
    and agg: "\<And>p. rk (AggRef p) \<le> rk r \<Longrightarrow> \<exists>out. asString_heap fuel E h sb depth p = Ok out"
  shows "\<exists>out. errorToString_heap (Suc fuel) E h sb depth r = Ok out"
proof -
  from errors_As_heap_ok [OF rkd fuel] obtain res where
    res: "errors_As_heap fuel h r = Ok res" "\<forall>p. res = Some p \<longrightarrow> rk (AggRef p) \<le> rk r"
    by blast
  show ?thesis
  proof (cases res)
    case None
    with res show ?thesis by (simp add: Let_def)
  next
    case (Some p)
    with res agg [of p] show ?thesis by simp
  qed
qed

lemma acyclic_text_returns:
  assumes rkd: "ranked h rk"
    and attrs: "\<And>a. list_all matches (nodeAttrs (aggs h a))"
  shows "(rk (AggRef p) \<le> k \<longrightarrow> (\<exists>out. asString_heap (2 * k + 1) E h sb depth p = Ok out)) \<and>
         (rk r \<le> k \<longrightarrow> (\<exists>out. errorToString_heap (2 * k + 2) E h sb depth r = Ok out))"
proof (induction k arbitrary: p r sb depth)
  case 0
  have a: "\<exists>out. asString_heap (2 * 0 + 1) E h sb depth p = Ok out" if "rk (AggRef p) \<le> 0"
    for p sb depth
  proof (cases p)
    case None
    then show ?thesis by simp
  next
    case (Some a)
    have "nodeErrors (aggs h a) = []"
    proof (cases "nodeErrors (aggs h a)")
      case Nil
      then show ?thesis .
    next
      case (Cons c cs)
      with rkd have "rk c < rk (AggRef (Some a))" unfolding ranked_def by simp
      with that Some show ?thesis by simp
    qed
    with asString_heap_step [of h a E 0 depth sb] attrs Some show ?thesis by simp
  qed
  have e: "\<exists>out. errorToString_heap (2 * 0 + 2) E h sb depth r = Ok out" if "rk r \<le> 0"
  proof -
    have "\<exists>out. errorToString_heap (Suc 1) E h sb depth r = Ok out"
    proof (rule errorToString_heap_step [OF rkd])
      from that show "rk r < 1" by simp
    next
      fix p assume "rk (AggRef p) \<le> rk r"
      with that a [of p sb depth] show "\<exists>out. asString_heap 1 E h sb depth p = Ok out" by simp
    qed
    then show ?thesis by (simp add: numeral_2_eq_2)
  qed
  from a e show ?case by blast
next
  case (Suc k)
  have a: "\<exists>out. asString_heap (2 * Suc k + 1) E h sb depth p = Ok out" if "rk (AggRef p) \<le> Suc k"
    for p sb depth
  proof (cases p)
    case None
    then show ?thesis by simp
  next
    case (Some a)
    have "\<exists>out. asString_heap (Suc (2 * k + 2)) E h sb depth (Some a) = Ok out"
    proof (rule asString_heap_step [OF attrs])
      fix sb' x
      assume "x \<in> set (normalizeErrors_heap E h 0 (nodeErrors (aggs h a)))"
      from normalizeErrors_heap_rank [OF rkd this] obtain c where
        c: "c \<in> set (nodeErrors (aggs h a))" "rk x \<le> rk c" by blast
      from rkd c(1) have "rk c < rk (AggRef (Some a))" unfolding ranked_def by blast
      with c(2) that Some have "rk x \<le> k" by simp
      with Suc [of p sb' "depth + 1" x]
      show "\<exists>out. errorToString_heap (2 * k + 2) E h sb' (depth + 1) x = Ok out" by blast
    qed
    with Some show ?thesis by simp
  qed
  have e: "\<exists>out. errorToString_heap (2 * Suc k + 2) E h sb depth r = Ok out" if "rk r \<le> Suc k"
  proof -
    have "\<exists>out. errorToString_heap (Suc (2 * Suc k + 1)) E h sb depth r = Ok out"
    proof (rule errorToString_heap_step [OF rkd])
      from that show "rk r < 2 * Suc k + 1" by simp
    next
      fix p assume "rk (AggRef p) \<le> rk r"
      with that a [of p sb depth]
      show "\<exists>out. asString_heap (2 * Suc k + 1) E h sb depth p = Ok out" by simp
    qed
    then show ?thesis by simp
  qed
  from a e show ?case by blast
qed


lemma rangeSlog_heap_ok:
  assumes "\<And>i v. v \<in> set values \<Longrightarrow> \<exists>out. arm i v = Ok out"
  shows "\<exists>out. rangeSlog_heap arm i values attrs = Ok out"
  using assms
proof (induction "values" arbitrary: i attrs)
  case Nil
  then show ?case by simp
next
  case (Cons v "values")
  from Cons.prems [of v i] obtain a where "arm i v = Ok a" by auto
  with Cons.IH [of "i + 1" "attrs @ [a]"] Cons.prems show ?case by simp
qed

lemma sliceToSlog_heap_ok:
  assumes "\<And>i v. v \<in> set slc \<Longrightarrow> \<exists>out. arm i v = Ok out"
  shows "\<exists>out. sliceToSlog_heap arm key slc = Ok out"
proof (cases "slc = []")
  case True
  then show ?thesis by (simp add: sliceToSlog_heap_def)
next
  case False
  from rangeSlog_heap_ok [of slc arm 0 "[]", OF assms]
  obtain out where "rangeSlog_heap arm 0 slc [] = Ok out" by blast
  with False show ?thesis by (simp add: sliceToSlog_heap_def)
qed

lemma sliceToSlog_attrs_total:
  "list_all matches attrs \<Longrightarrow> \<exists>out. sliceToSlog (\<lambda>i a. Attr_asSlog E (Some a)) key attrs = Some out"
proof -
  assume "list_all matches attrs"
  then have "sliceToSlog (\<lambda>i a. Attr_asSlog E (Some a)) key attrs \<noteq> None"
    by (simp add: sliceToSlog_None Attr_asSlog_panics list_all_length)
  then show ?thesis by auto
qed

lemma sliceToSlog_scalar_Some: "\<exists>out. sliceToSlog (slogScalar f) key slc = Some out"
  using sliceToSlog_scalar_total [of f key slc] by auto

lemma bindR_okI2:
  "\<exists>x. m = Ok x \<Longrightarrow> \<exists>y. bindR m (\<lambda>a. Ok (g a)) = Ok y"
  by auto

lemma LogValue_heap_step:
  assumes attrs: "list_all matches (nodeAttrs (aggs h a))"
    and errs: "\<And>i x. x \<in> set (normalizeErrors_heap E h 0 (nodeErrors (aggs h a))) \<Longrightarrow>
                 \<exists>out. errorToSlog_heap fuel E h (Itoa (int i)) x = Ok out"
  shows "\<exists>out. LogValue_heap (Suc fuel) E h (Some a) = Ok out"
  unfolding LogValue_heap.simps Let_def
proof (intro bindR_okI)
  show "\<exists>x. (if 0 < length (nodeTags (aggs h a))
              then bindR (liftO (sliceToSlog (slogScalar (\<lambda>key v. slog_String key (TrimSpace E v)))
                                   tagsKey (nodeTags (aggs h a))))
                     (\<lambda>b. Ok ([slog_String messageKey (cmpOr (nodeMessage (aggs h a)) nilValue)] @ [b]))
              else Ok [slog_String messageKey (cmpOr (nodeMessage (aggs h a)) nilValue)]) = Ok x"
    by (simp add: bindR_okI2 liftO_okI sliceToSlog_scalar_Some)
next
  fix x :: "slog_Attr list"
  show "\<exists>y. (if 0 < length (nodeAttrs (aggs h a))
              then bindR (liftO (sliceToSlog (\<lambda>i a. Attr_asSlog E (Some a)) attrsKey (nodeAttrs (aggs h a))))
                     (\<lambda>b. Ok (x @ [b]))
              else Ok x) = Ok y"
    using sliceToSlog_attrs_total [OF attrs] by (simp add: bindR_okI2 liftO_okI)
next
  fix x y :: "slog_Attr list"
  show "\<exists>z. (if 0 < length (nodeErrors (aggs h a))
              then bindR (sliceToSlog_heap (\<lambda>i. errorToSlog_heap fuel E h (Itoa (int i))) errorsKey
                            (normalizeErrors_heap E h 0 (nodeErrors (aggs h a))))
                     (\<lambda>b. Ok (y @ [b]))
              else Ok y) = Ok z"
    using sliceToSlog_heap_ok [of "normalizeErrors_heap E h 0 (nodeErrors (aggs h a))"
            "\<lambda>i. errorToSlog_heap fuel E h (Itoa (int i))" errorsKey, OF errs]
    by (simp add: bindR_okI2)
next
  fix x y z :: "slog_Attr list"
  show "\<exists>w. (if 0 < length (nodeStack (aggs h a))
              then bindR (liftO (sliceToSlog (slogScalar (\<lambda>key v. slog_String key (TrimSpace E v)))
                                   stackKey (Split_newLine (nodeStack (aggs h a)))))
                     (\<lambda>b. Ok (z @ [b]))
              else Ok z) = Ok w"
    by (simp add: bindR_okI2 liftO_okI sliceToSlog_scalar_Some)
next
  fix x y z w :: "slog_Attr list"
  show "\<exists>out. Ok (slog_GroupValue w) = Ok out" by simp
qed

lemma errorToSlog_heap_step:
  assumes rkd: "ranked h rk"
    and fuel: "rk r < fuel"
    and agg: "\<And>p. rk (AggRef p) \<le> rk r \<Longrightarrow> \<exists>out. LogValue_heap fuel E h p = Ok out"
  shows "\<exists>out. errorToSlog_heap (Suc fuel) E h key r = Ok out"
proof -
  from errors_As_heap_ok [OF rkd fuel] obtain res where
    res: "errors_As_heap fuel h r = Ok res" "\<forall>p. res = Some p \<longrightarrow> rk (AggRef p) \<le> rk r"
    by blast
  show ?thesis
  proof (cases res)
    case None
    with res show ?thesis by (simp add: Let_def)
  next
    case (Some p)
    with res agg [of p] show ?thesis by auto
  qed
qed

lemma acyclic_slog_returns:
  assumes rkd: "ranked h rk"
    and attrs: "\<And>a. list_all matches (nodeAttrs (aggs h a))"
  shows "(rk (AggRef p) \<le> k \<longrightarrow> (\<exists>out. LogValue_heap (2 * k + 1) E h p = Ok out)) \<and>
         (rk r \<le> k \<longrightarrow> (\<exists>out. errorToSlog_heap (2 * k + 2) E h key r = Ok out))"
proof (induction k arbitrary: p r key)
  case 0
  have a: "\<exists>out. LogValue_heap (2 * 0 + 1) E h p = Ok out" if "rk (AggRef p) \<le> 0" for p
  proof (cases p)
    case None
    then show ?thesis by simp
  next
    case (Some a)
    have "nodeErrors (aggs h a) = []"
    proof (cases "nodeErrors (aggs h a)")
      case Nil
      then show ?thesis .
    next
      case (Cons c cs)
      with rkd have "rk c < rk (AggRef (Some a))" unfolding ranked_def by simp
      with that Some show ?thesis by simp
    qed
    with LogValue_heap_step [of h a E 0] attrs Some show ?thesis by simp
  qed
  have e: "\<exists>out. errorToSlog_heap (2 * 0 + 2) E h key r = Ok out" if "rk r \<le> 0"
  proof -
    have "\<exists>out. errorToSlog_heap (Suc 1) E h key r = Ok out"
    proof (rule errorToSlog_heap_step [OF rkd])
      from that show "rk r < 1" by simp
    next
      fix p assume "rk (AggRef p) \<le> rk r"
      with that a [of p] show "\<exists>out. LogValue_heap 1 E h p = Ok out" by simp
    qed
    then show ?thesis by (simp add: numeral_2_eq_2)
  qed
  from a e show ?case by blast
next
  case (Suc k)
  have a: "\<exists>out. LogValue_heap (2 * Suc k + 1) E h p = Ok out" if "rk (AggRef p) \<le> Suc k" for p
  proof (cases p)
    case None
    then show ?thesis by simp
  next
    case (Some a)
    have "\<exists>out. LogValue_heap (Suc (2 * k + 2)) E h (Some a) = Ok out"
    proof (rule LogValue_heap_step [OF attrs])
      fix i x
      assume "x \<in> set (normalizeErrors_heap E h 0 (nodeErrors (aggs h a)))"
      from normalizeErrors_heap_rank [OF rkd this] obtain c where
        c: "c \<in> set (nodeErrors (aggs h a))" "rk x \<le> rk c" by blast
      from rkd c(1) have "rk c < rk (AggRef (Some a))" unfolding ranked_def by blast
      with c(2) that Some have "rk x \<le> k" by simp
      with Suc [of p x "Itoa (int i)"]
      show "\<exists>out. errorToSlog_heap (2 * k + 2) E h (Itoa (int i)) x = Ok out" by blast
    qed
    with Some show ?thesis by simp
  qed
  have e: "\<exists>out. errorToSlog_heap (2 * Suc k + 2) E h key r = Ok out" if "rk r \<le> Suc k"
  proof -
    have "\<exists>out. errorToSlog_heap (Suc (2 * Suc k + 1)) E h key r = Ok out"
    proof (rule errorToSlog_heap_step [OF rkd])
      from that show "rk r < 2 * Suc k + 1" by simp
    next
      fix p assume "rk (AggRef p) \<le> rk r"
      with that a [of p]
      show "\<exists>out. LogValue_heap (2 * Suc k + 1) E h p = Ok out" by simp
    qed
    then show ?thesis by simp
  qed
  from a e show ?case by blast
qed


lemma selfReferential_slog_diverges:
  "LogValue_heap fuel E selfReferential (Some 0) = Timeout \<and>
   errorToSlog_heap fuel E selfReferential key (AggRef (Some 0)) = Timeout"
proof (induction fuel arbitrary: key)
  case 0
  then show ?case by simp
next
  case (Suc fuel)
  have n: "normalizeErrors_heap E selfReferential 0 [AggRef (Some 0)] = [AggRef (Some 0)]"
    by simp
  have a: "LogValue_heap (Suc fuel) E selfReferential (Some 0) = Timeout"
    using Suc [THEN conjunct2]
    by (simp add: selfReferential_def sliceToSlog_heap_def Let_def n [unfolded selfReferential_def])
  have e: "errorToSlog_heap (Suc fuel) E selfReferential key (AggRef (Some 0)) = Timeout"
  proof (cases fuel)
    case 0
    then show ?thesis by simp
  next
    case (Suc k)
    with Suc.IH [THEN conjunct1] show ?thesis by simp
  qed
  from a e show ?case by simp
qed


text \<open>
  Claim C5 says that every encoder returns on every stored graph, self-referential ones
  included. On the aggregate that holds itself as its cause neither \<^verbatim>\<open>Error\<close> nor
  \<^verbatim>\<open>LogValue\<close> returns, whatever the number of nested calls allowed.
\<close>

theorem self_referential_aggregate_counterexample:
  "(\<forall>fuel. Error_heap fuel exampleEnv selfReferential (Some 0) = Timeout) \<and>
   (\<forall>fuel. LogValue_heap fuel exampleEnv selfReferential (Some 0) = Timeout)"
  by (simp add: Error_heap_def selfReferential_diverges selfReferential_slog_diverges)


text \<open>
  Claim C5, amended. Once the depth of the normalizer exceeds the configured maximum the
  unwrap and expand rules are skipped and the candidates are emitted as they are, on
  every store. On every acyclic store whose attributes hold payloads of their \<open>Type\<close>,
  wrap chains longer than the maximum depth included, the text encoder and the
  structured-log encoder return output.
\<close>

theorem encoders_return_on_acyclic_graphs:
  "(int depth > maxDepthMarshal E \<longrightarrow> normalizeErrors_heap E h depth errs = errs) \<and>
   (ranked h rk \<and> (\<forall>a. list_all matches (nodeAttrs (aggs h a))) \<longrightarrow>
      (\<exists>fuel out. Error_heap fuel E h p = Ok out) \<and>
      (\<exists>fuel v. LogValue_heap fuel E h p = Ok v))"
proof (intro conjI impI)
  assume "int depth > maxDepthMarshal E"
  then show "normalizeErrors_heap E h depth errs = errs"
    by (rule normalizeErrors_heap_over_depth)
next
  assume a: "ranked h rk \<and> (\<forall>a. list_all matches (nodeAttrs (aggs h a)))"
  then have rkd: "ranked h rk" and attrs: "\<And>a. list_all matches (nodeAttrs (aggs h a))"
    by simp_all
  from acyclic_text_returns [OF rkd attrs, of p "rk (AggRef p)" E "[]" 0, THEN conjunct1]
  show "\<exists>fuel out. Error_heap fuel E h p = Ok out"
    unfolding Error_heap_def by blast
next
  assume a: "ranked h rk \<and> (\<forall>a. list_all matches (nodeAttrs (aggs h a)))"
  then have rkd: "ranked h rk" and attrs: "\<And>a. list_all matches (nodeAttrs (aggs h a))"
    by simp_all
  from acyclic_slog_returns [OF rkd attrs, of p "rk (AggRef p)" E, THEN conjunct1]
  show "\<exists>fuel v. LogValue_heap fuel E h p = Ok v"
    by blast
qed

theorem encoders_return_on_acyclic_graphs_witness:
  "int 2 > maxDepthMarshal (exampleEnv \<lparr> maxDepthMarshal := 1 \<rparr>) \<and>
   normalizeErrors_heap (exampleEnv \<lparr> maxDepthMarshal := 1 \<rparr>) chainHeap 2 [ObjRef 3] = [ObjRef 3] \<and>
   ranked chainHeap chainRank \<and>
   (\<forall>a. list_all matches (nodeAttrs (aggs chainHeap a))) \<and>
   (\<exists>fuel out. Error_heap fuel (exampleEnv \<lparr> maxDepthMarshal := 1 \<rparr>) chainHeap (Some 0) = Ok out) \<and>
   (\<exists>fuel v. LogValue_heap fuel (exampleEnv \<lparr> maxDepthMarshal := 1 \<rparr>) chainHeap (Some 0) = Ok v)"
proof -
  have d: "int 2 > maxDepthMarshal (exampleEnv \<lparr> maxDepthMarshal := 1 \<rparr>)"
    by simp
  have r: "ranked chainHeap chainRank"
    by (auto simp: ranked_def chainHeap_def)
  have m: "\<forall>a. list_all matches (nodeAttrs (aggs chainHeap a))"
    by (simp add: chainHeap_def attr_constructors payload_ok_def)
  note t = encoders_return_on_acyclic_graphs [where depth = 2
      and E = "exampleEnv \<lparr> maxDepthMarshal := 1 \<rparr>" and h = chainHeap and errs = "[ObjRef 3]"
      and rk = chainRank and p = "Some 0"]
  from t d r m show ?thesis by blast
qed


end
